theory Spec2Isabelle
  imports Main
begin

section \<open>Shared vocabulary of the two servers\<close>

text \<open>
  The repository holds two parallel servers: the SQLite-backed one
  (\<^verbatim>\<open>src/unnamed/part_000\<close>: \<^verbatim>\<open>scheduleRule\<close>, \<^verbatim>\<open>unscheduleRule\<close>,
  \<^verbatim>\<open>getTargets\<close>, \<^verbatim>\<open>setStatus\<close>, \<^verbatim>\<open>enforce\<close>, \<^verbatim>\<open>periodicEnforce\<close>) and the
  JSON-file one (\<^verbatim>\<open>src/unnamed/part_001\<close>: \<^verbatim>\<open>scheduleRule\<close>, \<^verbatim>\<open>unschedule\<close>,
  \<^verbatim>\<open>findTargetsByName\<close>, \<^verbatim>\<open>setStatusOnObjects\<close>, \<^verbatim>\<open>inActiveWindow\<close>,
  \<^verbatim>\<open>enforceRule\<close>). Both are embedded. Where the two files use one name, the
  definition taken from the JSON-file server carries the suffix \<open>_json\<close>.

  An instant is a point on the time line (what \<^verbatim>\<open>new Date()\<close> or \<^verbatim>\<open>dayjs()\<close> returns).
  Reading an instant in a zone gives a weekday (0 = Sunday, as \<^verbatim>\<open>dayjs().day()\<close>
  counts), an hour and a minute.
\<close>

datatype status = ACTIVE | PAUSED

type_synonym instant = int

record local_time =
  lt_day :: nat
  lt_hour :: int
  lt_minute :: int

text \<open>
  \<^verbatim>\<open>Intl.DateTimeFormat('en-US', {weekday: 'short'})\<close> prints the weekday as one of
  these tags.
\<close>

definition weekdayShort :: "nat \<Rightarrow> string" where
  "weekdayShort d =
     (if d = 0 then ''Sun'' else if d = 1 then ''Mon'' else if d = 2 then ''Tue''
      else if d = 3 then ''Wed'' else if d = 4 then ''Thu'' else if d = 5 then ''Fri''
      else ''Sat'')"

section \<open>The SQLite-backed server: rules\<close>

text \<open>
  A row of table \<^verbatim>\<open>rules\<close>. The columns \<^verbatim>\<open>target_ids\<close> and \<^verbatim>\<open>days_of_week\<close> hold
  JSON text; the record holds what \<^verbatim>\<open>JSON.parse\<close> returns. A time of day
  \<^verbatim>\<open>"HH:MM"\<close> is held as the pair that \<^verbatim>\<open>split(':').map(Number)\<close> yields; a text
  that does not split into two numbers (a \<^verbatim>\<open>NaN\<close> field) is outside the model.
  \<^verbatim>\<open>name_filter\<close> is nullable.
\<close>

record rule =
  rule_id :: int
  account_id :: string
  level :: string
  target_ids :: "string list"
  name_filter :: "string option"
  stop_time :: "int \<times> int"
  start_time :: "int \<times> int"
  timezone :: string
  enforce_window_minutes :: int
  days_of_week :: "string list"
  enabled :: bool
  cred_index :: int

text \<open>
  Lines 127 to 138 of \<^verbatim>\<open>periodicEnforce\<close>: the desired status from the current
  minute of the day \<open>cur\<close> and the two boundaries.
\<close>

definition stopMin :: "rule \<Rightarrow> int" where
  "stopMin r = fst (stop_time r) * 60 + snd (stop_time r)"

definition startMin :: "rule \<Rightarrow> int" where
  "startMin r = fst (start_time r) * 60 + snd (start_time r)"

definition periodicDesired :: "rule \<Rightarrow> int \<Rightarrow> status" where
  "periodicDesired r cur =
     (if stopMin r < startMin r
      then (if cur \<ge> stopMin r \<and> cur < startMin r then PAUSED else ACTIVE)
      else (if cur \<ge> stopMin r \<or> cur < startMin r then PAUSED else ACTIVE))"

section \<open>The JSON-file server: rules\<close>

text \<open>
  A rule object of \<^verbatim>\<open>data/rules.json\<close>, as the POST handler builds it. The times
  \<^verbatim>\<open>stop\<close> and \<^verbatim>\<open>start\<close> are held as the pair that
  \<^verbatim>\<open>split(':').map(v => parseInt(v, 10))\<close> yields. \<open>enforce_every\<close> is the
  result of a \<^verbatim>\<open>parseInt\<close>: a whole number, or \<open>None\<close> for \<^verbatim>\<open>NaN\<close>.
\<close>

record jrule =
  jid :: string
  jaccount_id :: string
  jlevel :: string
  ids :: "string list"
  name_contains :: string
  stop :: "int \<times> int"
  start :: "int \<times> int"
  tz :: string
  days :: "nat list"
  enforce_every :: "int option"

text \<open>
  \<^verbatim>\<open>inActiveWindow(rule, now)\<close>. \<^verbatim>\<open>dayjs(now)\<close> has no zone plugin loaded, so
  \<^verbatim>\<open>n.day()\<close>, \<^verbatim>\<open>n.hour()\<close> and \<^verbatim>\<open>n.minute()\<close> read the instant in the zone of the
  host process: the function receives that reading, \<open>hostLocal now\<close>.
\<close>

definition t_json :: "int \<times> int \<Rightarrow> int" where
  "t_json s = fst s * 60 + snd s"

definition inActiveWindow :: "(instant \<Rightarrow> local_time) \<Rightarrow> jrule \<Rightarrow> instant \<Rightarrow> bool" where
  "inActiveWindow hostLocal r now =
     (let n = hostLocal now;
          day = lt_day n
      in if days r = [] then True
         else if day \<notin> set (days r) then False
         else let mins = lt_hour n * 60 + lt_minute n;
                  start' = t_json (start r);
                  stop' = t_json (stop r)
              in if start' = stop' then False
                 else if start' < stop' then mins \<ge> start' \<and> mins < stop'
                 else \<not> (mins \<ge> stop' \<and> mins < start'))"

section \<open>The window rule as the specification words it\<close>

text \<open>
  The specification's evaluator: \<open>Paused\<close> without condition when the boundaries
  coincide; \<open>Paused\<close> on \<open>stop_m \<le> m < start_m\<close> when the pause window does not
  cross midnight; \<open>Paused\<close> on \<open>m \<ge> stop_m\<close> or \<open>m < start_m\<close> when it does.
\<close>

definition desired_state_spec :: "int \<Rightarrow> int \<Rightarrow> int \<Rightarrow> status" where
  "desired_state_spec stop_m start_m m =
     (if stop_m = start_m then PAUSED
      else if stop_m < start_m
           then (if stop_m \<le> m \<and> m < start_m then PAUSED else ACTIVE)
           else (if m \<ge> stop_m \<or> m < start_m then PAUSED else ACTIVE))"

section \<open>The SQLite-backed server: provider calls and enforcement\<close>

text \<open>
  What a failed \<^verbatim>\<open>axios\<close> request throws: \<open>err_code\<close> is
  \<^verbatim>\<open>e.response?.data?.error?.code\<close> (absent when the chain is undefined),
  \<open>err_payload\<close> is \<^verbatim>\<open>e.response?.data || e.message\<close>.
\<close>

record api_error =
  err_code :: "int option"
  err_payload :: string

record item =
  item_id :: string
  item_name :: "string option"

datatype alert = Alert status string string int string

text \<open>
  The effects the server has on its surroundings, each as a log with the newest entry
  last: status mutations posted to the provider (\<open>calls\<close>), listing requests
  (\<open>gets\<close>), back-off delays in milliseconds (\<open>sleeps\<close>) and alerts handed to
  \<^verbatim>\<open>slackNotify\<close>. Credentials and access tokens are not modelled.
\<close>

record world =
  calls :: "(string \<times> status) list"
  gets :: "string list"
  sleeps :: "nat list"
  alerts :: "alert list"

text \<open>
  The surroundings: the default zone of the configuration, the reading of an instant in
  a named zone (\<open>None\<close> where \<^verbatim>\<open>Intl.DateTimeFormat\<close> throws \<^verbatim>\<open>RangeError\<close> on a
  zone it does not know), the provider's answer to the \<open>k\<close>-th status mutation
  (\<open>None\<close> is success) and its answer to a listing request.
\<close>

record env =
  DEFAULT_TZ :: string
  zoneLocal :: "string \<Rightarrow> instant \<Rightarrow> local_time option"
  post_reply :: "nat \<Rightarrow> string \<Rightarrow> status \<Rightarrow> api_error option"
  get_reply :: "string \<Rightarrow> api_error + item list"

datatype js_error = RangeError | RequestFailed api_error | SqliteError

text \<open>\<^verbatim>\<open>String.prototype.includes\<close>: the argument occurs as a contiguous part.\<close>

fun startsWith :: "string \<Rightarrow> string \<Rightarrow> bool" where
  "startsWith s [] = True"
| "startsWith [] (c # cs) = False"
| "startsWith (x # xs) (c # cs) = (x = c \<and> startsWith xs cs)"

fun includes_str :: "string \<Rightarrow> string \<Rightarrow> bool" where
  "includes_str [] sub = (sub = [])"
| "includes_str (x # xs) sub = (startsWith (x # xs) sub \<or> includes_str xs sub)"

definition orEmpty :: "string option \<Rightarrow> string" where
  "orEmpty n = (case n of None \<Rightarrow> [] | Some s \<Rightarrow> s)"

definition endpoint_of :: "rule \<Rightarrow> string" where
  "endpoint_of r =
     ''https://graph.facebook.com/v19.0/act_'' @ account_id r @ ''/''
       @ (if level r = ''campaign'' then ''campaigns'' else ''adsets'')"

definition fetchByNameFilter ::
    "env \<Rightarrow> rule \<Rightarrow> world \<Rightarrow> (api_error + string list) \<times> world" where
  "fetchByNameFilter E r w =
     (let endpoint = endpoint_of r;
          w1 = w\<lparr>gets := gets w @ [endpoint]\<rparr>;
          needle = (case name_filter r of None \<Rightarrow> ''null'' | Some f \<Rightarrow> f)
      in case get_reply E endpoint of
           Inl e \<Rightarrow> (Inl e, w1)
         | Inr data \<Rightarrow>
             (Inr (map item_id (filter (\<lambda>x. includes_str (orEmpty (item_name x)) needle) data)),
              w1))"

definition getTargets ::
    "env \<Rightarrow> rule \<Rightarrow> world \<Rightarrow> (api_error + string list) \<times> world" where
  "getTargets E r w =
     (let ids' = target_ids r
      in if ids' \<noteq> [] then (Inr ids', w)
         else if name_filter r = None \<or> name_filter r = Some [] then (Inr [], w)
         else fetchByNameFilter E r w)"

definition transient_codes :: "int list" where
  "transient_codes = [1, 2, 4, 17, 32, 613, 80004]"

definition transient :: "api_error \<Rightarrow> bool" where
  "transient e = (case err_code e of None \<Rightarrow> False | Some c \<Rightarrow> c \<in> set transient_codes)"

text \<open>
  The loop of \<^verbatim>\<open>setStatus\<close>, entered at attempt number \<open>attempt\<close>. \<open>Inl e\<close> is
  \<^verbatim>\<open>throw e\<close>.
\<close>

function setStatus_from ::
    "env \<Rightarrow> string \<Rightarrow> status \<Rightarrow> nat \<Rightarrow> world \<Rightarrow> (api_error + unit) \<times> world" where
  "setStatus_from E oid desired attempt w =
     (if attempt \<le> 3
      then (let w1 = w\<lparr>calls := calls w @ [(oid, desired)]\<rparr>
            in case post_reply E (length (calls w)) oid desired of
                 None \<Rightarrow> (Inr (), w1)
               | Some e \<Rightarrow>
                   if attempt < 3 \<and> transient e
                   then setStatus_from E oid desired (attempt + 1)
                          (w1\<lparr>sleeps := sleeps w1 @ [500 * attempt]\<rparr>)
                   else (Inl e, w1))
      else (Inr (), w))"
  by pat_completeness auto
termination
  by (relation "measure (\<lambda>(E, oid, desired, attempt, w). 4 - attempt)") auto

declare setStatus_from.simps [simp del]

definition setStatus ::
    "env \<Rightarrow> string \<Rightarrow> status \<Rightarrow> world \<Rightarrow> (api_error + unit) \<times> world" where
  "setStatus E oid desired w = setStatus_from E oid desired 1 w"

definition slackNotify :: "alert \<Rightarrow> world \<Rightarrow> world" where
  "slackNotify a w = w\<lparr>alerts := alerts w @ [a]\<rparr>"

text \<open>The world after one more status mutation was posted, and after one more delay.\<close>

definition called :: "string \<Rightarrow> status \<Rightarrow> world \<Rightarrow> world" where
  "called oid d w = w\<lparr>calls := calls w @ [(oid, d)]\<rparr>"

definition slept :: "nat \<Rightarrow> world \<Rightarrow> world" where
  "slept ms w = w\<lparr>sleeps := sleeps w @ [ms]\<rparr>"

text \<open>The \<^verbatim>\<open>for (const id of targets)\<close> loop of \<^verbatim>\<open>enforce\<close>, with its \<^verbatim>\<open>try/catch\<close>.\<close>

fun applyEach :: "env \<Rightarrow> rule \<Rightarrow> status \<Rightarrow> string list \<Rightarrow> world \<Rightarrow> world" where
  "applyEach E r desired [] w = w"
| "applyEach E r desired (oid # rest) w =
     (case setStatus E oid desired w of
        (Inr u, w1) \<Rightarrow> applyEach E r desired rest w1
      | (Inl e, w1) \<Rightarrow>
          applyEach E r desired rest
            (slackNotify (Alert desired (level r) oid (rule_id r) (err_payload e)) w1))"

text \<open>
  \<^verbatim>\<open>enforce(rule, desired)\<close> at the instant \<open>now\<close> that its \<^verbatim>\<open>new Date()\<close> reads.
  The first component is the error the promise rejects with, if any. The last statement,
  \<^verbatim>\<open>db.prepare('UPDATE rules SET last_run = datetime("now") WHERE id = ?')\<close>, writes
  \<^verbatim>\<open>"now"\<close> in double quotes; the SQLite library that \<^verbatim>\<open>better-sqlite3\<close> bundles does
  not read a double-quoted word as a string, finds no column of that name and raises, so
  a run that gets past the loop over the targets ends in \<open>SqliteError\<close> and stamps
  nothing.
\<close>

definition enforce ::
    "env \<Rightarrow> rule \<Rightarrow> status \<Rightarrow> instant \<Rightarrow> world \<Rightarrow> js_error option \<times> world" where
  "enforce E r desired now w =
     (case zoneLocal E (timezone r) now of
        None \<Rightarrow> (Some RangeError, w)
      | Some lt \<Rightarrow>
          (let dow = weekdayShort (lt_day lt)
           in if dow \<notin> set (days_of_week r) then (None, w)
              else case getTargets E r w of
                     (Inl e, w1) \<Rightarrow> (Some (RequestFailed e), w1)
                   | (Inr targets, w1) \<Rightarrow>
                       if targets = [] then (None, w1)
                       else (Some SqliteError, applyEach E r desired targets w1)))"

text \<open>
  \<^verbatim>\<open>periodicEnforce(rule)\<close>: \<open>now\<close> is the instant its own \<^verbatim>\<open>new Date()\<close> reads,
  \<open>now'\<close> the one \<^verbatim>\<open>enforce\<close> reads right after.
\<close>

definition periodicEnforce ::
    "env \<Rightarrow> rule \<Rightarrow> instant \<Rightarrow> instant \<Rightarrow> world \<Rightarrow> js_error option \<times> world" where
  "periodicEnforce E r now now' w =
     (let tz' = (if timezone r = [] then DEFAULT_TZ E else timezone r)
      in case zoneLocal E tz' now of
           None \<Rightarrow> (Some RangeError, w)
         | Some lt \<Rightarrow>
             (let cur = lt_hour lt * 60 + lt_minute lt
              in enforce E r (periodicDesired r cur) now' w))"

section \<open>The JSON-file server: provider calls and enforcement\<close>

text \<open>
  The outcome of a \<^verbatim>\<open>fetch\<close> followed by \<^verbatim>\<open>res.json()\<close>: an exception (with its
  text), a response whose \<^verbatim>\<open>res.ok\<close> is false (with its JSON text), or a response
  whose \<^verbatim>\<open>res.ok\<close> is true.
\<close>

datatype 'a reply = Threw string | NotOk string | Ok 'a

text \<open>
  One page of a listing: \<^verbatim>\<open>json.data\<close> (an empty list when it is not an array) and
  \<^verbatim>\<open>json.paging.next\<close> (\<open>None\<close> when \<^verbatim>\<open>json.paging\<close> or \<^verbatim>\<open>next\<close> is missing).
\<close>

record page =
  page_data :: "item list"
  page_next :: "string option"

text \<open>
  The effects of the JSON-file server, as logs with the newest entry last: status
  mutations posted, listing requests, and the alerts handed to \<^verbatim>\<open>postSlack\<close> (of an
  alert text only the error payload is kept). Its surroundings: the default zone, the
  reading of an instant in the zone of the host process, the provider's answer to the
  \<open>k\<close>-th status mutation and its answer to a listing request.
\<close>

record jworld =
  jcalls :: "(string \<times> status) list"
  jgets :: "string list"
  jslack :: "string list"

record jenv =
  ACCOUNT_TIMEZONE_DEFAULT :: string
  hostLocal :: "instant \<Rightarrow> local_time"
  fetch_post :: "nat \<Rightarrow> string \<Rightarrow> status \<Rightarrow> string reply"
  fetch_get :: "string \<Rightarrow> page reply"

definition postSlack :: "string \<Rightarrow> jworld \<Rightarrow> jworld" where
  "postSlack text w = w\<lparr>jslack := jslack w @ [text]\<rparr>"

text \<open>An entry of the \<^verbatim>\<open>results\<close> array: \<^verbatim>\<open>{id, ok: false, error}\<close> or \<^verbatim>\<open>{id, ok: true, result}\<close>.\<close>

datatype result = Failed string string | Succeeded string string

fun setStatusOnObjects ::
    "jenv \<Rightarrow> string \<Rightarrow> string list \<Rightarrow> status \<Rightarrow> jworld \<Rightarrow> result list \<times> jworld" where
  "setStatusOnObjects E lvl [] st w = ([], w)"
| "setStatusOnObjects E lvl (oid # rest) st w =
     (let w1 = w\<lparr>jcalls := jcalls w @ [(oid, st)]\<rparr>
      in case fetch_post E (length (jcalls w)) oid st of
           Ok json \<Rightarrow>
             (let (rs, w2) = setStatusOnObjects E lvl rest st w1
              in (Succeeded oid json # rs, w2))
         | NotOk json \<Rightarrow>
             (let (rs, w2) = setStatusOnObjects E lvl rest st (postSlack json w1)
              in (Failed oid json # rs, w2))
         | Threw e \<Rightarrow>
             (let (rs, w2) = setStatusOnObjects E lvl rest st (postSlack e w1)
              in (Failed oid e # rs, w2)))"

text \<open>
  \<^verbatim>\<open>String.prototype.toLowerCase\<close> on the letters A to Z; other characters are left
  as they are (case folding beyond ASCII is not modelled).
\<close>

definition lowerChar :: "char \<Rightarrow> char" where
  "lowerChar c =
     (let n = (of_char c :: nat) in if 65 \<le> n \<and> n \<le> 90 then char_of (n + 32) else c)"

definition toLowerCase :: "string \<Rightarrow> string" where
  "toLowerCase s = map lowerChar s"

definition keeps :: "string \<Rightarrow> item \<Rightarrow> bool" where
  "keeps nameContains it =
     (nameContains = [] \<or>
      includes_str (toLowerCase (orEmpty (item_name it))) (toLowerCase nameContains))"

text \<open>
  The page loop of \<^verbatim>\<open>findTargetsByName\<close>, entered with counter \<open>i\<close>, the next
  address \<open>url\<close> and the identifiers collected so far. An exception of \<^verbatim>\<open>fetch\<close> is
  not caught: the function rejects (\<open>Inl\<close>).
\<close>

function findTargets_from ::
    "jenv \<Rightarrow> string \<Rightarrow> string \<Rightarrow> nat \<Rightarrow> string option \<Rightarrow> string list \<Rightarrow> jworld
       \<Rightarrow> (string + string list) \<times> jworld" where
  "findTargets_from E node nameContains i url out w =
     (case url of
        None \<Rightarrow> (Inr out, w)
      | Some u \<Rightarrow>
          if i < 10 \<and> u \<noteq> []
          then (let w1 = w\<lparr>jgets := jgets w @ [u]\<rparr>
                in case fetch_get E u of
                     Threw e \<Rightarrow> (Inl e, w1)
                   | NotOk json \<Rightarrow> (Inr out, postSlack json w1)
                   | Ok pg \<Rightarrow>
                       findTargets_from E node nameContains (i + 1) (page_next pg)
                         (out @ map item_id (filter (keeps nameContains) (page_data pg))) w1)
          else (Inr out, w))"
  by pat_completeness auto
termination
  by (relation "measure (\<lambda>(E, node, nameContains, i, url, out, w). 10 - i)") auto

declare findTargets_from.simps [simp del]

definition node_of :: "string \<Rightarrow> string" where
  "node_of lvl = (if lvl = ''campaign'' then ''campaigns'' else ''adsets'')"

definition listing_url :: "string \<Rightarrow> string \<Rightarrow> string" where
  "listing_url accountId lvl =
     ''https://graph.facebook.com/v23.0/act_'' @ accountId @ ''/'' @ node_of lvl"

definition findTargetsByName ::
    "jenv \<Rightarrow> string \<Rightarrow> string \<Rightarrow> string \<Rightarrow> jworld \<Rightarrow> (string + string list) \<times> jworld" where
  "findTargetsByName E accountId lvl nameContains w =
     (let node = node_of lvl;
          base = listing_url accountId lvl
      in findTargets_from E node nameContains 0 (Some base) [] w)"

text \<open>
  For stating what the page loop returns: the pages that a walk of at most \<open>n\<close>
  requests reads, starting at address \<open>url\<close> and following \<^verbatim>\<open>paging.next\<close>; the
  walk ends at a missing or empty address, at a response that is not \<^verbatim>\<open>ok\<close> and at an
  exception.
\<close>

fun pages_walked :: "jenv \<Rightarrow> nat \<Rightarrow> string option \<Rightarrow> page list" where
  "pages_walked E 0 url = []"
| "pages_walked E (Suc n) url =
     (case url of
        None \<Rightarrow> []
      | Some u \<Rightarrow>
          if u = [] then []
          else (case fetch_get E u of
                  Ok pg \<Rightarrow> pg # pages_walked E n (page_next pg)
                | NotOk js \<Rightarrow> []
                | Threw e \<Rightarrow> []))"

definition kept_ids :: "string \<Rightarrow> page list \<Rightarrow> string list" where
  "kept_ids f pgs = concat (map (\<lambda>pg. map item_id (filter (keeps f) (page_data pg))) pgs)"

text \<open>
  The expression \<^verbatim>\<open>rule.ids && rule.ids.length > 0 ? rule.ids : await findTargetsByName(...)\<close>
  that \<^verbatim>\<open>enforceRule\<close> and both edge callbacks of \<^verbatim>\<open>scheduleRule\<close> evaluate.
\<close>

definition ruleTargets :: "jenv \<Rightarrow> jrule \<Rightarrow> jworld \<Rightarrow> (string + string list) \<times> jworld" where
  "ruleTargets E r w =
     (if ids r \<noteq> [] then (Inr (ids r), w)
      else findTargetsByName E (jaccount_id r) (jlevel r) (name_contains r) w)"

text \<open>The edge callbacks: resolve, then set the fixed status.\<close>

definition edgeApply :: "jenv \<Rightarrow> jrule \<Rightarrow> status \<Rightarrow> jworld \<Rightarrow> string option \<times> jworld" where
  "edgeApply E r st w =
     (case ruleTargets E r w of
        (Inl e, w1) \<Rightarrow> (Some e, w1)
      | (Inr ids', w1) \<Rightarrow> (None, snd (setStatusOnObjects E (jlevel r) ids' st w1)))"

definition enforceRule :: "jenv \<Rightarrow> jrule \<Rightarrow> instant \<Rightarrow> jworld \<Rightarrow> string option \<times> jworld" where
  "enforceRule E r now w =
     (let desiredActive = inActiveWindow (hostLocal E) r now;
          st = (if desiredActive then ACTIVE else PAUSED)
      in edgeApply E r st w)"

section \<open>Timed triggers\<close>

text \<open>
  The two shapes of cron expression the servers build: \<^verbatim>\<open>`${m} ${h} * * *`\<close> and
  \<^verbatim>\<open>`*/${n} * * * *`\<close>. A task is what \<^verbatim>\<open>cron.schedule(expr, callback, {timezone})\<close>
  registers. The library state is the table of tasks that are running (scheduled and
  not stopped), keyed by a handle, and the number of tasks created so far.

  \<^verbatim>\<open>cron.schedule\<close> belongs to the library \<^verbatim>\<open>node-cron\<close>, whose code is not among the
  sources; two points of its behaviour are written down here as the library documents
  them. It validates the expression before it creates a task and throws on a field out
  of range: \<open>cron_accepts\<close> holds of a minute from 0 to 59 together with an hour from
  0 to 23, and of a step of at least 1. A task of expression \<^verbatim>\<open>*/n * * * *\<close> fires at
  the minutes of every hour that are multiples of \<open>n\<close>: \<open>fires e h m\<close> says
  whether a task of expression \<open>e\<close> fires at the hour \<open>h\<close> and minute \<open>m\<close> of
  its zone, for \<open>h\<close> from 0 to 23 and \<open>m\<close> from 0 to 59. The zone handed over is
  taken to be one the library knows.
\<close>

datatype cron_expr = DailyAt int int | EveryMinutes int

fun cron_accepts :: "cron_expr \<Rightarrow> bool" where
  "cron_accepts (DailyAt m h) = (0 \<le> m \<and> m \<le> 59 \<and> 0 \<le> h \<and> h \<le> 23)"
| "cron_accepts (EveryMinutes n) = (1 \<le> n)"

fun fires :: "cron_expr \<Rightarrow> int \<Rightarrow> int \<Rightarrow> bool" where
  "fires (DailyAt m h) hh mm = (hh = h \<and> mm = m)"
| "fires (EveryMinutes n) hh mm = (mm mod n = 0)"

datatype cron_error = Rejected cron_expr

record 'cb cron_task =
  task_expr :: cron_expr
  task_callback :: 'cb
  task_tz :: string

record 'cb cron =
  running :: "nat \<rightharpoonup> 'cb cron_task"
  created :: nat

text \<open>
  \<^verbatim>\<open>cron.schedule\<close>: the handle of the new task and the library state with the task
  running, or \<open>None\<close> where the call throws and creates nothing.
\<close>

definition cron_schedule ::
    "cron_expr \<Rightarrow> 'cb \<Rightarrow> string \<Rightarrow> 'cb cron \<Rightarrow> (nat \<times> 'cb cron) option" where
  "cron_schedule e cb z c =
     (if cron_accepts e
      then Some (created c,
                 c\<lparr>running := (running c)(created c \<mapsto>
                                 \<lparr>task_expr = e, task_callback = cb, task_tz = z\<rparr>),
                   created := Suc (created c)\<rparr>)
      else None)"

definition task_stop :: "nat \<Rightarrow> 'cb cron \<Rightarrow> 'cb cron" where
  "task_stop h c = c\<lparr>running := (running c)(h := None)\<rparr>"

section \<open>The SQLite-backed server: the registry \<^verbatim>\<open>jobs\<close>\<close>

datatype callback = Enforce rule status | PeriodicEnforce rule

record job_set =
  job_stop :: nat
  job_start :: nat
  job_enforce :: nat

definition job_values :: "job_set \<Rightarrow> nat list" where
  "job_values j = [job_stop j, job_start j, job_enforce j]"

record sched =
  crons :: "callback cron"
  jobs :: "int \<rightharpoonup> job_set"

definition unscheduleRule :: "int \<Rightarrow> sched \<Rightarrow> sched" where
  "unscheduleRule ruleId s =
     (case jobs s ruleId of
        None \<Rightarrow> s
      | Some j \<Rightarrow> s\<lparr>crons := fold task_stop (job_values j) (crons s),
                    jobs := (jobs s)(ruleId := None)\<rparr>)"

definition everyXMins :: "rule \<Rightarrow> int" where
  "everyXMins r =
     max 5 (if enforce_window_minutes r = 0 then 30 else enforce_window_minutes r)"

text \<open>
  \<^verbatim>\<open>scheduleRule(rule)\<close>. The first component is the error it throws, if any: the
  function has no \<^verbatim>\<open>try\<close>, so a \<^verbatim>\<open>cron.schedule\<close> that throws ends it on the spot.
  The second component is the state it leaves behind: the old trigger set is gone, the
  tasks created before the throw keep running, and \<^verbatim>\<open>jobs.set\<close> was not reached.
\<close>

definition scheduleRule :: "string \<Rightarrow> rule \<Rightarrow> sched \<Rightarrow> cron_error option \<times> sched" where
  "scheduleRule dtz r s0 =
     (let s = unscheduleRule (rule_id r) s0
      in if \<not> enabled r then (None, s)
         else (let tz' = (if timezone r = [] then dtz else timezone r);
                   (stopH, stopM) = stop_time r;
                   (startH, startM) = start_time r
               in case cron_schedule (DailyAt stopM stopH) (Enforce r PAUSED) tz' (crons s) of
                    None \<Rightarrow> (Some (Rejected (DailyAt stopM stopH)), s)
                  | Some (stop', c1) \<Rightarrow>
                      (case cron_schedule (DailyAt startM startH) (Enforce r ACTIVE) tz' c1 of
                         None \<Rightarrow> (Some (Rejected (DailyAt startM startH)), s\<lparr>crons := c1\<rparr>)
                       | Some (start', c2) \<Rightarrow>
                           (case cron_schedule (EveryMinutes (everyXMins r))
                                   (PeriodicEnforce r) tz' c2 of
                              None \<Rightarrow>
                                (Some (Rejected (EveryMinutes (everyXMins r))), s\<lparr>crons := c2\<rparr>)
                            | Some (enforceTask, c3) \<Rightarrow>
                                (None,
                                 s\<lparr>crons := c3,
                                   jobs := (jobs s)(rule_id r \<mapsto>
                                     \<lparr>job_stop = stop', job_start = start',
                                      job_enforce = enforceTask\<rparr>)\<rparr>)))))"

text \<open>The two edge expressions built from a row are ones \<^verbatim>\<open>cron.schedule\<close> accepts.\<close>

definition times_ok :: "rule \<Rightarrow> bool" where
  "times_ok r \<longleftrightarrow>
     cron_accepts (DailyAt (snd (stop_time r)) (fst (stop_time r))) \<and>
     cron_accepts (DailyAt (snd (start_time r)) (fst (start_time r)))"

section \<open>The JSON-file server: the registry \<^verbatim>\<open>schedulers\<close>\<close>

datatype jcallback = EdgeApply jrule status | EnforceRule jrule

record jsched =
  jcrons :: "jcallback cron"
  schedulers :: "string \<rightharpoonup> nat list"

definition unschedule :: "string \<Rightarrow> jsched \<Rightarrow> jsched" where
  "unschedule rid s =
     (case schedulers s rid of
        Some set' \<Rightarrow> s\<lparr>jcrons := fold task_stop set' (jcrons s),
                       schedulers := (schedulers s)(rid := None)\<rparr>
      | None \<Rightarrow> s)"

text \<open>
  \<^verbatim>\<open>cronForTime(t, tz)\<close> on a time whose two fields are numbers (the \<^verbatim>\<open>isNaN\<close>
  defaults do not apply).
\<close>

definition cronForTime :: "int \<times> int \<Rightarrow> string \<Rightarrow> cron_expr \<times> string" where
  "cronForTime t z = (let (hh, mm) = t in (DailyAt mm hh, z))"

definition every_json :: "jrule \<Rightarrow> int" where
  "every_json r =
     max 1 (min 60 (case enforce_every r of None \<Rightarrow> 5 | Some n \<Rightarrow> if n = 0 then 5 else n))"

text \<open>
  \<^verbatim>\<open>scheduleRule(rule)\<close> of the JSON-file server, with the error it throws, if any,
  and the state it leaves behind.
\<close>

definition scheduleRule_json ::
    "string \<Rightarrow> jrule \<Rightarrow> jsched \<Rightarrow> cron_error option \<times> jsched" where
  "scheduleRule_json dtz r s0 =
     (let s = unschedule (jid r) s0;
          tz' = (if tz r = [] then dtz else tz r);
          s1 = cronForTime (stop r) tz';
          s2 = cronForTime (start r) tz'
      in case cron_schedule (fst s1) (EdgeApply r PAUSED) tz' (jcrons s) of
           None \<Rightarrow> (Some (Rejected (fst s1)), s)
         | Some (job1, c1) \<Rightarrow>
             (case cron_schedule (fst s2) (EdgeApply r ACTIVE) tz' c1 of
                None \<Rightarrow> (Some (Rejected (fst s2)), s\<lparr>jcrons := c1\<rparr>)
              | Some (job2, c2) \<Rightarrow>
                  (let every = every_json r
                   in case cron_schedule (EveryMinutes every) (EnforceRule r) tz' c2 of
                        None \<Rightarrow> (Some (Rejected (EveryMinutes every)), s\<lparr>jcrons := c2\<rparr>)
                      | Some (job3, c3) \<Rightarrow>
                          (None,
                           s\<lparr>jcrons := c3,
                             schedulers := (schedulers s)(jid r \<mapsto> [job1, job2, job3])\<rparr>))))"

definition times_ok_json :: "jrule \<Rightarrow> bool" where
  "times_ok_json r \<longleftrightarrow>
     cron_accepts (DailyAt (snd (stop r)) (fst (stop r))) \<and>
     cron_accepts (DailyAt (snd (start r)) (fst (start r)))"

text \<open>The three tasks that \<^verbatim>\<open>scheduleRule\<close> of the JSON-file server builds from a rule.\<close>

definition edge_task :: "string \<Rightarrow> jrule \<Rightarrow> int \<times> int \<Rightarrow> status \<Rightarrow> jcallback cron_task" where
  "edge_task dtz r t st =
     \<lparr>task_expr = DailyAt (snd t) (fst t), task_callback = EdgeApply r st,
      task_tz = (if tz r = [] then dtz else tz r)\<rparr>"

definition periodic_task_json :: "string \<Rightarrow> jrule \<Rightarrow> jcallback cron_task" where
  "periodic_task_json dtz r =
     \<lparr>task_expr = EveryMinutes (every_json r), task_callback = EnforceRule r,
      task_tz = (if tz r = [] then dtz else tz r)\<rparr>"

definition no_cron :: "'cb cron" where
  "no_cron = \<lparr>running = Map.empty, created = 0\<rparr>"

definition no_jobs :: sched where
  "no_jobs = \<lparr>crons = no_cron, jobs = Map.empty\<rparr>"

definition no_schedulers :: jsched where
  "no_schedulers = \<lparr>jcrons = no_cron, schedulers = Map.empty\<rparr>"

section \<open>Trigger sets: what a registry is to satisfy\<close>

text \<open>
  A registry maps a rule id to the handles of its trigger set. It owns the running tasks
  when the running tasks are exactly the handles it lists, every trigger set lists
  distinct handles, two trigger sets share no handle, and every running handle was
  created earlier. It holds the tasks \<open>T\<close> when each rule id has a trigger set
  exactly if \<open>T\<close> assigns it tasks, and then the handles run those tasks, in order.
\<close>

definition owned_ok :: "'cb cron \<Rightarrow> ('k \<rightharpoonup> nat list) \<Rightarrow> bool" where
  "owned_ok c H \<longleftrightarrow>
     (\<forall>h. (running c h \<noteq> None) = (\<exists>k hs. H k = Some hs \<and> h \<in> set hs)) \<and>
     (\<forall>k hs. H k = Some hs \<longrightarrow> distinct hs) \<and>
     (\<forall>k k' hs hs'. H k = Some hs \<longrightarrow> H k' = Some hs' \<longrightarrow> k \<noteq> k' \<longrightarrow>
         set hs \<inter> set hs' = {}) \<and>
     (\<forall>h. running c h \<noteq> None \<longrightarrow> h < created c)"

definition holds_tasks ::
    "'cb cron \<Rightarrow> ('k \<rightharpoonup> nat list) \<Rightarrow> ('k \<rightharpoonup> 'cb cron_task list) \<Rightarrow> bool" where
  "holds_tasks c H T \<longleftrightarrow>
     (\<forall>k. map_option (map (running c)) (H k) = map_option (map Some) (T k))"

text \<open>
  The two steps both \<^verbatim>\<open>scheduleRule\<close> functions are made of when no
  \<^verbatim>\<open>cron.schedule\<close> throws, on the pair of the library state and the handles: stop
  and forget the trigger set of a rule id, and create three tasks and record them under
  a rule id.
\<close>

definition cancel ::
    "'k \<Rightarrow> 'cb cron \<times> ('k \<rightharpoonup> nat list) \<Rightarrow> 'cb cron \<times> ('k \<rightharpoonup> nat list)" where
  "cancel k cH =
     (case snd cH k of
        None \<Rightarrow> cH
      | Some hs \<Rightarrow> (fold task_stop hs (fst cH), (snd cH)(k := None)))"

definition install ::
    "'k \<Rightarrow> 'cb cron_task \<Rightarrow> 'cb cron_task \<Rightarrow> 'cb cron_task \<Rightarrow>
       'cb cron \<times> ('k \<rightharpoonup> nat list) \<Rightarrow> 'cb cron \<times> ('k \<rightharpoonup> nat list)" where
  "install k a b d cH =
     (let c = fst cH; n = created c
      in (\<lparr>running = (running c)(n \<mapsto> a, Suc n \<mapsto> b, Suc (Suc n) \<mapsto> d),
           created = Suc (Suc (Suc n))\<rparr>,
          (snd cH)(k \<mapsto> [n, Suc n, Suc (Suc n)])))"

definition job_handles :: "sched \<Rightarrow> int \<rightharpoonup> nat list" where
  "job_handles s k = map_option job_values (jobs s k)"

section \<open>The SQLite-backed server: the rule table and its handlers\<close>

text \<open>
  A request body: every field may be missing. The table \<^verbatim>\<open>rules\<close> is the list of
  its rows together with the highest key \<^verbatim>\<open>AUTOINCREMENT\<close> has handed out. A handler
  is given as the exception that leaves it, if any, and the state it leaves behind; the
  handlers are synchronous, so one request is finished before the next begins. The
  response is not modelled.
\<close>

datatype handler_error = StatementFailed | ScheduleFailed cron_error

record body =
  b_account_id :: "string option"
  b_level :: "string option"
  b_target_ids :: "string list option"
  b_name_filter :: "string option"
  b_stop_time :: "(int \<times> int) option"
  b_start_time :: "(int \<times> int) option"
  b_timezone :: "string option"
  b_enforce_window_minutes :: "int option"
  b_days_of_week :: "string list option"
  b_enabled :: "bool option"
  b_cred_index :: "int option"

record server =
  db :: "rule list"
  seq :: int
  sched :: sched

definition level_ok :: "string \<Rightarrow> bool" where
  "level_ok l = (l = ''campaign'' \<or> l = ''adset'')"

text \<open>
  The row that \<^verbatim>\<open>POST /api/rules\<close> inserts under key \<open>k\<close>: \<open>built_row\<close> is the
  parameter object of the \<^verbatim>\<open>INSERT\<close> statement for a body that has the four fields
  without a default; \<open>new_row\<close> is \<open>None\<close> when the statement fails on a
  \<^verbatim>\<open>NOT NULL\<close> or \<^verbatim>\<open>CHECK\<close> constraint.
\<close>

definition built_row ::
    "string \<Rightarrow> int \<Rightarrow> string \<Rightarrow> string \<Rightarrow> int \<times> int \<Rightarrow> int \<times> int \<Rightarrow> body \<Rightarrow> rule" where
  "built_row dtz k a l st sr b =
     \<lparr>rule_id = k, account_id = a, level = l,
      target_ids = (case b_target_ids b of None \<Rightarrow> [] | Some t \<Rightarrow> t),
      name_filter = (case b_name_filter b of None \<Rightarrow> None
                     | Some f \<Rightarrow> if f = [] then None else Some f),
      stop_time = st, start_time = sr,
      timezone = (case b_timezone b of None \<Rightarrow> dtz
                  | Some z \<Rightarrow> if z = [] then dtz else z),
      enforce_window_minutes = (case b_enforce_window_minutes b of None \<Rightarrow> 30
                                | Some n \<Rightarrow> if n = 0 then 30 else n),
      days_of_week = (case b_days_of_week b of
                        None \<Rightarrow> [''Mon'', ''Tue'', ''Wed'', ''Thu'', ''Fri'', ''Sat'', ''Sun'']
                      | Some d \<Rightarrow> d),
      enabled = (case b_enabled b of None \<Rightarrow> False | Some e \<Rightarrow> e),
      cred_index = (case b_cred_index b of None \<Rightarrow> 0 | Some c \<Rightarrow> c)\<rparr>"

definition new_row :: "string \<Rightarrow> int \<Rightarrow> body \<Rightarrow> rule option" where
  "new_row dtz k b =
     (case b_account_id b of None \<Rightarrow> None | Some a \<Rightarrow>
      case b_level b of None \<Rightarrow> None | Some l \<Rightarrow>
      case b_stop_time b of None \<Rightarrow> None | Some st \<Rightarrow>
      case b_start_time b of None \<Rightarrow> None | Some sr \<Rightarrow>
        if \<not> level_ok l then None else Some (built_row dtz k a l st sr b))"

text \<open>
  \<^verbatim>\<open>POST /api/rules\<close>: the row is inserted, read back and handed to
  \<^verbatim>\<open>scheduleRule\<close>; when that throws, the row stays in the table.
\<close>

definition post_rules :: "string \<Rightarrow> body \<Rightarrow> server \<Rightarrow> handler_error option \<times> server" where
  "post_rules dtz b s =
     (case new_row dtz (seq s + 1) b of
        None \<Rightarrow> (Some StatementFailed, s)
      | Some row \<Rightarrow>
          (let (e, sc) = scheduleRule dtz row (sched s)
           in (map_option ScheduleFailed e,
               s\<lparr>db := db s @ [row], seq := seq s + 1, sched := sc\<rparr>)))"

text \<open>
  \<^verbatim>\<open>PATCH /api/rules/:id\<close>: the stored row overlaid with the fields of the body.
  The \<^verbatim>\<open>UPDATE\<close> statement sets neither \<^verbatim>\<open>id\<close> nor \<^verbatim>\<open>account_id\<close>. An unknown id
  is answered with status 404, which is no exception.
\<close>

definition orElse :: "'a option \<Rightarrow> 'a \<Rightarrow> 'a" where
  "orElse x d = (case x of None \<Rightarrow> d | Some v \<Rightarrow> v)"

definition merged_row :: "rule \<Rightarrow> body \<Rightarrow> rule" where
  "merged_row row b =
     row\<lparr>level := orElse (b_level b) (level row),
         target_ids := orElse (b_target_ids b) (target_ids row),
         name_filter := (case b_name_filter b of None \<Rightarrow> name_filter row | Some f \<Rightarrow> Some f),
         stop_time := orElse (b_stop_time b) (stop_time row),
         start_time := orElse (b_start_time b) (start_time row),
         timezone := orElse (b_timezone b) (timezone row),
         enforce_window_minutes := orElse (b_enforce_window_minutes b) (enforce_window_minutes row),
         days_of_week := orElse (b_days_of_week b) (days_of_week row),
         enabled := orElse (b_enabled b) (enabled row),
         cred_index := orElse (b_cred_index b) (cred_index row)\<rparr>"

definition patch_rules ::
    "string \<Rightarrow> int \<Rightarrow> body \<Rightarrow> server \<Rightarrow> handler_error option \<times> server" where
  "patch_rules dtz k b s =
     (case find (\<lambda>r. rule_id r = k) (db s) of
        None \<Rightarrow> (None, s)
      | Some row \<Rightarrow>
          (let updated = merged_row row b
           in if \<not> level_ok (level updated) then (Some StatementFailed, s)
              else (let (e, sc) = scheduleRule dtz updated (sched s)
                    in (map_option ScheduleFailed e,
                        s\<lparr>db := map (\<lambda>r. if rule_id r = k then updated else r) (db s),
                          sched := sc\<rparr>))))"

definition delete_rules :: "int \<Rightarrow> server \<Rightarrow> server" where
  "delete_rules k s =
     s\<lparr>db := filter (\<lambda>r. rule_id r \<noteq> k) (db s), sched := unscheduleRule k (sched s)\<rparr>"

text \<open>
  \<^verbatim>\<open>init\<close>: every enabled row is scheduled, in table order; a \<^verbatim>\<open>scheduleRule\<close>
  that throws ends the loop.
\<close>

fun init_loop :: "string \<Rightarrow> rule list \<Rightarrow> sched \<Rightarrow> cron_error option \<times> sched" where
  "init_loop dtz [] s = (None, s)"
| "init_loop dtz (r # rs) s =
     (case scheduleRule dtz r s of
        (Some e, s1) \<Rightarrow> (Some e, s1)
      | (None, s1) \<Rightarrow> init_loop dtz rs s1)"

definition init :: "string \<Rightarrow> server \<Rightarrow> cron_error option \<times> server" where
  "init dtz s =
     (let (e, sc) = init_loop dtz (filter enabled (db s)) (sched s)
      in (e, s\<lparr>sched := sc\<rparr>))"

text \<open>
  The states the server passes through as long as no \<^verbatim>\<open>scheduleRule\<close> throws: it
  starts on some table with an empty registry and runs \<^verbatim>\<open>init\<close> to its end;
  afterwards it handles requests, and none of them ends in an exception out of
  \<^verbatim>\<open>scheduleRule\<close>.
\<close>

inductive reachable :: "string \<Rightarrow> server \<Rightarrow> bool" for dtz :: string where
  boot: "distinct (map rule_id rows) \<Longrightarrow> (\<forall>r \<in> set rows. rule_id r \<le> n) \<Longrightarrow>
         init dtz \<lparr>db = rows, seq = n, sched = \<lparr>crons = no_cron, jobs = Map.empty\<rparr>\<rparr>
           = (None, s) \<Longrightarrow> reachable dtz s"
| post: "reachable dtz s \<Longrightarrow> post_rules dtz b s = (e, s') \<Longrightarrow>
         (\<forall>x. e \<noteq> Some (ScheduleFailed x)) \<Longrightarrow> reachable dtz s'"
| patch: "reachable dtz s \<Longrightarrow> patch_rules dtz k b s = (e, s') \<Longrightarrow>
         (\<forall>x. e \<noteq> Some (ScheduleFailed x)) \<Longrightarrow> reachable dtz s'"
| delete: "reachable dtz s \<Longrightarrow> reachable dtz (delete_rules k s)"

text \<open>The three tasks that \<^verbatim>\<open>scheduleRule\<close> builds from a row.\<close>

definition tz_of :: "string \<Rightarrow> rule \<Rightarrow> string" where
  "tz_of dtz r = (if timezone r = [] then dtz else timezone r)"

definition stop_task :: "string \<Rightarrow> rule \<Rightarrow> callback cron_task" where
  "stop_task dtz r =
     \<lparr>task_expr = DailyAt (snd (stop_time r)) (fst (stop_time r)),
      task_callback = Enforce r PAUSED, task_tz = tz_of dtz r\<rparr>"

definition start_task :: "string \<Rightarrow> rule \<Rightarrow> callback cron_task" where
  "start_task dtz r =
     \<lparr>task_expr = DailyAt (snd (start_time r)) (fst (start_time r)),
      task_callback = Enforce r ACTIVE, task_tz = tz_of dtz r\<rparr>"

definition periodic_task :: "string \<Rightarrow> rule \<Rightarrow> callback cron_task" where
  "periodic_task dtz r =
     \<lparr>task_expr = EveryMinutes (everyXMins r),
      task_callback = PeriodicEnforce r, task_tz = tz_of dtz r\<rparr>"

text \<open>The trigger set that the stored configuration of rule \<open>k\<close> calls for.\<close>

definition trigger_set :: "string \<Rightarrow> rule list \<Rightarrow> int \<Rightarrow> callback cron_task list option" where
  "trigger_set dtz rows k =
     (case find (\<lambda>r. rule_id r = k) rows of
        None \<Rightarrow> None
      | Some r \<Rightarrow>
          if enabled r then Some [stop_task dtz r, start_task dtz r, periodic_task dtz r]
          else None)"

section \<open>The JSON-file server: the rule file and its handlers\<close>

record jbody =
  jb_account_id :: "string option"
  jb_level :: "string option"
  jb_ids :: "string list option"
  jb_name_contains :: "string option"
  jb_stop :: "(int \<times> int) option"
  jb_start :: "(int \<times> int) option"
  jb_tz :: "string option"
  jb_days :: "nat list option"
  jb_enforce_every :: "int option"

record jserver =
  rules :: "jrule list"
  jsched :: jsched

text \<open>
  The rule object of \<^verbatim>\<open>POST /api/rules\<close>; \<open>stamp\<close> is the decimal text of
  \<^verbatim>\<open>Date.now()\<close>. The handlers are given for a request that is handled alone, from its
  first statement to its last: the rule file is written before \<^verbatim>\<open>scheduleRule\<close> is
  called, so the rule stays in the file when that throws.
\<close>

definition new_rule :: "string \<Rightarrow> string \<Rightarrow> jbody \<Rightarrow> jrule" where
  "new_rule dtz stamp b =
     \<lparr>jid = ''r_'' @ stamp,
      jaccount_id = orElse (jb_account_id b) [],
      jlevel = (if jb_level b = Some ''adset'' then ''adset'' else ''campaign''),
      ids = orElse (jb_ids b) [],
      name_contains = orElse (jb_name_contains b) [],
      stop = orElse (jb_stop b) (23, 0),
      start = orElse (jb_start b) (0, 1),
      tz = (case jb_tz b of None \<Rightarrow> dtz | Some z \<Rightarrow> if z = [] then dtz else z),
      days = orElse (jb_days b) [0, 1, 2, 3, 4, 5, 6],
      enforce_every = (case jb_enforce_every b of None \<Rightarrow> Some 5
                       | Some n \<Rightarrow> if n = 0 then Some 5 else Some n)\<rparr>"

definition post_rules_json ::
    "string \<Rightarrow> string \<Rightarrow> jbody \<Rightarrow> jserver \<Rightarrow> cron_error option \<times> jserver" where
  "post_rules_json dtz stamp b s =
     (let r = new_rule dtz stamp b;
          (e, sc) = scheduleRule_json dtz r (jsched s)
      in (e, s\<lparr>rules := rules s @ [r], jsched := sc\<rparr>))"

fun removeFirst :: "('a \<Rightarrow> bool) \<Rightarrow> 'a list \<Rightarrow> 'a list" where
  "removeFirst P [] = []"
| "removeFirst P (x # xs) = (if P x then xs else x # removeFirst P xs)"

definition delete_rules_json :: "string \<Rightarrow> jserver \<Rightarrow> jserver" where
  "delete_rules_json rid s =
     (if \<exists>r \<in> set (rules s). jid r = rid
      then s\<lparr>rules := removeFirst (\<lambda>r. jid r = rid) (rules s),
             jsched := unschedule rid (jsched s)\<rparr>
      else s)"

section \<open>Trigger sets: the two servers\<close>

text \<open>
  The trigger set a single rule calls for (\<open>entry\<close>, \<open>entry_json\<close>), the effect on the
  expected trigger sets of scheduling one rule (\<open>record_entry\<close>), and what is to
  hold of a registry and of a whole state of the SQLite-backed server: the registry owns
  the running tasks and holds, for every rule id, the trigger set that the stored rules
  call for, and the stored rule ids are distinct.
\<close>

definition entry :: "string \<Rightarrow> rule \<Rightarrow> callback cron_task list option" where
  "entry dtz r =
     (if enabled r then Some [stop_task dtz r, start_task dtz r, periodic_task dtz r] else None)"

definition sched_ok :: "sched \<Rightarrow> (int \<rightharpoonup> callback cron_task list) \<Rightarrow> bool" where
  "sched_ok s T \<longleftrightarrow> owned_ok (crons s) (job_handles s) \<and> holds_tasks (crons s) (job_handles s) T"

definition server_ok :: "string \<Rightarrow> server \<Rightarrow> bool" where
  "server_ok dtz S \<longleftrightarrow>
     distinct (map rule_id (db S)) \<and> (\<forall>r \<in> set (db S). rule_id r \<le> seq S) \<and>
     sched_ok (sched S) (trigger_set dtz (db S))"

definition record_entry ::
    "string \<Rightarrow> rule \<Rightarrow> (int \<rightharpoonup> callback cron_task list) \<Rightarrow> (int \<rightharpoonup> callback cron_task list)" where
  "record_entry dtz r T = T(rule_id r := entry dtz r)"

definition entry_json :: "string \<Rightarrow> jrule \<Rightarrow> jcallback cron_task list" where
  "entry_json dtz r =
     [edge_task dtz r (stop r) PAUSED, edge_task dtz r (start r) ACTIVE, periodic_task_json dtz r]"

definition jsched_ok :: "jsched \<Rightarrow> (string \<rightharpoonup> jcallback cron_task list) \<Rightarrow> bool" where
  "jsched_ok s T \<longleftrightarrow> owned_ok (jcrons s) (schedulers s) \<and> holds_tasks (jcrons s) (schedulers s) T"

section \<open>Concrete inputs\<close>

text \<open>
  A zone at a fixed offset from UTC, in minutes, reading an instant given in
  milliseconds since 1970-01-01T00:00Z (a Thursday).
\<close>

definition fixedZone :: "int \<Rightarrow> instant \<Rightarrow> local_time" where
  "fixedZone off t =
     (let m = t div 60000 + off
      in \<lparr>lt_day = nat ((m div 1440 + 4) mod 7),
          lt_hour = (m mod 1440) div 60,
          lt_minute = m mod 60\<rparr>)"

text \<open>
  Monday 1970-01-05 at 15:00 and 23:00 UTC, and Tuesday 1970-01-06 at 23:00 UTC.
\<close>

definition mon_1500 :: instant where "mon_1500 = 399600000"
definition mon_2300 :: instant where "mon_2300 = 428400000"
definition tue_2300 :: instant where "tue_2300 = 514800000"

text \<open>The rule of the specification's scenario (stop 22:00, start 06:00, Mondays, UTC), once per server.\<close>

definition ex_rule :: rule where
  "ex_rule =
     \<lparr>rule_id = 1, account_id = ''42'', level = ''campaign'', target_ids = [''a'', ''b''],
      name_filter = None, stop_time = (22, 0), start_time = (6, 0), timezone = ''UTC'',
      enforce_window_minutes = 30, days_of_week = [''Mon''], enabled = True, cred_index = 0\<rparr>"

definition ex_jrule :: jrule where
  "ex_jrule =
     \<lparr>jid = ''r_1'', jaccount_id = ''42'', jlevel = ''campaign'', ids = [''a''],
      name_contains = [], stop = (22, 0), start = (6, 0), tz = ''UTC'', days = [1],
      enforce_every = Some 5\<rparr>"

text \<open>
  Surroundings for the examples: two known zones, a provider that accepts every
  mutation, one that answers the first two mutations with the transient code 4, and a
  listing of two objects on a single page.
\<close>

definition ex_zones :: "string \<Rightarrow> instant \<Rightarrow> local_time option" where
  "ex_zones z t =
     (if z = ''UTC'' then Some (fixedZone 0 t)
      else if z = ''Asia/Tokyo'' then Some (fixedZone 540 t)
      else None)"

definition ex_listing :: "item list" where
  "ex_listing =
     [\<lparr>item_id = ''1'', item_name = Some ''Summer Sale''\<rparr>,
      \<lparr>item_id = ''2'', item_name = Some ''winter''\<rparr>]"

definition rate_limited :: api_error where
  "rate_limited = \<lparr>err_code = Some 4, err_payload = ''rate limited''\<rparr>"

definition accept_post :: "nat \<Rightarrow> string \<Rightarrow> status \<Rightarrow> api_error option" where
  "accept_post k oid st = None"

definition flaky_post :: "nat \<Rightarrow> string \<Rightarrow> status \<Rightarrow> api_error option" where
  "flaky_post k oid st = (if k < 2 then Some rate_limited else None)"

definition ex_get :: "string \<Rightarrow> api_error + item list" where
  "ex_get url = Inr ex_listing"

definition ex_env :: env where
  "ex_env = \<lparr>DEFAULT_TZ = ''UTC'', zoneLocal = ex_zones, post_reply = accept_post,
             get_reply = ex_get\<rparr>"

definition flaky_env :: env where
  "flaky_env = \<lparr>DEFAULT_TZ = ''UTC'', zoneLocal = ex_zones, post_reply = flaky_post,
                get_reply = ex_get\<rparr>"

definition w0 :: world where
  "w0 = \<lparr>calls = [], gets = [], sleeps = [], alerts = []\<rparr>"

definition accept_fetch :: "nat \<Rightarrow> string \<Rightarrow> status \<Rightarrow> string reply" where
  "accept_fetch k oid st = Ok ''{success:true}''"

definition flaky_fetch :: "nat \<Rightarrow> string \<Rightarrow> status \<Rightarrow> string reply" where
  "flaky_fetch k oid st = (if k < 2 then NotOk ''{error:{code:4}}'' else Ok ''{success:true}'')"

definition ex_fetch_get :: "string \<Rightarrow> page reply" where
  "ex_fetch_get url = Ok \<lparr>page_data = ex_listing, page_next = None\<rparr>"

definition ex_jenv :: jenv where
  "ex_jenv = \<lparr>ACCOUNT_TIMEZONE_DEFAULT = ''UTC'', hostLocal = fixedZone 0,
              fetch_post = accept_fetch, fetch_get = ex_fetch_get\<rparr>"

definition flaky_jenv :: jenv where
  "flaky_jenv = \<lparr>ACCOUNT_TIMEZONE_DEFAULT = ''UTC'', hostLocal = fixedZone 0,
                 fetch_post = flaky_fetch, fetch_get = ex_fetch_get\<rparr>"

definition v0 :: jworld where
  "v0 = \<lparr>jcalls = [], jgets = [], jslack = []\<rparr>"

text \<open>
  Variants of the two example rules: a rule in the zone of Tokyo for every weekday, a
  rule with an empty list of days, rules with neither identifiers nor a name filter,
  rules with the name filter \<open>summer\<close>, one with the name filter \<open>Summer\<close>, and
  rules asking for a check every 120 minutes, every minute and every 45 minutes.
\<close>

definition nodays_jrule :: jrule where
  "nodays_jrule = ex_jrule\<lparr>days := []\<rparr>"

definition tokyo_jrule :: jrule where
  "tokyo_jrule = ex_jrule\<lparr>tz := ''Asia/Tokyo'', days := [0, 1, 2, 3, 4, 5, 6]\<rparr>"

definition bare_rule :: rule where
  "bare_rule = ex_rule\<lparr>target_ids := []\<rparr>"

definition bare_jrule :: jrule where
  "bare_jrule = ex_jrule\<lparr>ids := []\<rparr>"

definition summer_rule :: rule where
  "summer_rule = ex_rule\<lparr>target_ids := [], name_filter := Some ''summer''\<rparr>"

definition summer_jrule :: jrule where
  "summer_jrule = ex_jrule\<lparr>ids := [], name_contains := ''summer''\<rparr>"

definition capital_rule :: rule where
  "capital_rule = ex_rule\<lparr>target_ids := [], name_filter := Some ''Summer''\<rparr>"

definition slow_rule :: rule where
  "slow_rule = ex_rule\<lparr>enforce_window_minutes := 120\<rparr>"

definition quick_rule :: rule where
  "quick_rule = ex_rule\<lparr>enforce_window_minutes := 1\<rparr>"

definition uneven_jrule :: jrule where
  "uneven_jrule = ex_jrule\<lparr>enforce_every := Some 45\<rparr>"

text \<open>
  A server of each kind after start-up on an empty store, a request body for each, and
  the same bodies with the start time \<^verbatim>\<open>25:00\<close>; the servers after one
  \<^verbatim>\<open>POST /api/rules\<close> with each of these bodies.
\<close>

definition empty_server :: server where
  "empty_server = \<lparr>db = [], seq = 0, sched = no_jobs\<rparr>"

definition empty_jserver :: jserver where
  "empty_jserver = \<lparr>rules = [], jsched = no_schedulers\<rparr>"

definition ex_body :: body where
  "ex_body =
     \<lparr>b_account_id = Some ''42'', b_level = Some ''campaign'', b_target_ids = Some [''a''],
      b_name_filter = None, b_stop_time = Some (22, 0), b_start_time = Some (6, 0),
      b_timezone = None, b_enforce_window_minutes = None, b_days_of_week = None,
      b_enabled = Some True, b_cred_index = None\<rparr>"

definition ex_jbody :: jbody where
  "ex_jbody =
     \<lparr>jb_account_id = Some ''42'', jb_level = Some ''campaign'', jb_ids = Some [''a''],
      jb_name_contains = None, jb_stop = Some (22, 0), jb_start = Some (6, 0), jb_tz = None,
      jb_days = None, jb_enforce_every = None\<rparr>"

definition late_body :: body where
  "late_body = ex_body\<lparr>b_start_time := Some (25, 0)\<rparr>"

definition late_jbody :: jbody where
  "late_jbody = ex_jbody\<lparr>jb_start := Some (25, 0)\<rparr>"

definition ex_server :: server where
  "ex_server = snd (post_rules ''UTC'' ex_body empty_server)"

definition late_server :: server where
  "late_server = snd (post_rules ''UTC'' late_body empty_server)"

definition late_jserver :: jserver where
  "late_jserver = snd (post_rules_json ''UTC'' ''1700000000000'' late_jbody empty_jserver)"

section \<open>Properties: auxiliary facts\<close>

lemma running_fold_stop:
  "running (fold task_stop hs c) = (\<lambda>h. if h \<in> set hs then None else running c h)"
  by (induction hs arbitrary: c) (auto simp: task_stop_def fun_eq_iff)

lemma created_fold_stop: "created (fold task_stop hs c) = created c"
  by (induction hs arbitrary: c) (auto simp: task_stop_def)

lemma unscheduleRule_absent: "jobs s k = None \<Longrightarrow> unscheduleRule k s = s"
  by (simp add: unscheduleRule_def)

lemma jobs_unscheduleRule: "jobs (unscheduleRule k s) = (jobs s)(k := None)"
  by (auto simp: unscheduleRule_def split: option.splits)

lemma unschedule_absent: "schedulers s k = None \<Longrightarrow> unschedule k s = s"
  by (simp add: unschedule_def)

lemma schedulers_unschedule: "schedulers (unschedule k s) = (schedulers s)(k := None)"
  by (auto simp: unschedule_def split: option.splits)

lemma periodicDesired_spec:
  "periodicDesired r cur = desired_state_spec (stopMin r) (startMin r) cur"
  by (auto simp: periodicDesired_def desired_state_spec_def)

lemma inActiveWindow_spec:
  "lt_day (hl now) \<in> set (days j) \<Longrightarrow>
   (if inActiveWindow hl j now then ACTIVE else PAUSED) =
     desired_state_spec (t_json (stop j)) (t_json (start j))
       (lt_hour (hl now) * 60 + lt_minute (hl now))"
  by (auto simp: inActiveWindow_def desired_state_spec_def Let_def)


lemma length_calls_called: "length (calls (called oid d w)) = Suc (length (calls w))"
  by (simp add: called_def)

lemma calls_slept: "calls (slept ms w) = calls w"
  by (simp add: slept_def)

lemma setStatus_from_last:
  "setStatus_from E oid d (Suc (Suc (Suc 0))) w =
     (case post_reply E (length (calls w)) oid d of
        None \<Rightarrow> (Inr (), called oid d w)
      | Some e \<Rightarrow> (Inl e, called oid d w))"
  by (subst setStatus_from.simps) (simp add: called_def split: option.splits)

lemma setStatus_from_step:
  "attempt < 3 \<Longrightarrow> setStatus_from E oid d attempt w =
     (case post_reply E (length (calls w)) oid d of
        None \<Rightarrow> (Inr (), called oid d w)
      | Some e \<Rightarrow> if transient e
                  then setStatus_from E oid d (Suc attempt) (slept (500 * attempt) (called oid d w))
                  else (Inl e, called oid d w))"
  by (subst setStatus_from.simps) (simp add: called_def slept_def split: option.splits)

lemma setStatus_from_calls_bound:
  "length (calls (snd (setStatus_from E oid d attempt w))) \<le> length (calls w) + (4 - attempt)"
proof (induction E oid d attempt w rule: setStatus_from.induct)
  case (1 E oid desired attempt w)
  show ?case
  proof (cases "attempt \<le> 3")
    case False
    then show ?thesis by (subst setStatus_from.simps) simp
  next
    case le: True
    show ?thesis
    proof (cases "post_reply E (length (calls w)) oid desired")
      case None
      with le show ?thesis by (subst setStatus_from.simps) simp
    next
      case (Some e)
      show ?thesis
      proof (cases "attempt < 3 \<and> transient e")
        case True
        with "1.IH" [OF le refl Some True] le Some show ?thesis
          by (subst setStatus_from.simps) (simp, arith)
      next
        case False
        with le Some show ?thesis by (subst setStatus_from.simps) auto
      qed
    qed
  qed
qed

lemma setStatusOnObjects_calls:
  "jcalls (snd (setStatusOnObjects J lvl xs st v)) = jcalls v @ map (\<lambda>x. (x, st)) xs"
  by (induction xs arbitrary: v)
     (auto simp: Let_def postSlack_def split_beta split: reply.splits)

lemma setStatusOnObjects_gets:
  "jgets (snd (setStatusOnObjects J lvl xs st v)) = jgets v"
  by (induction xs arbitrary: v)
     (auto simp: Let_def postSlack_def split_beta split: reply.splits)

lemma setStatusOnObjects_results:
  "length (fst (setStatusOnObjects J lvl xs st v)) = length xs"
  by (induction xs arbitrary: v)
     (auto simp: Let_def split_beta split: reply.splits)

lemma setStatusOnObjects_exact:
  "fst (setStatusOnObjects J lvl xs st v) =
     map (\<lambda>(k, x). case fetch_post J k x st of
                      Ok json \<Rightarrow> Succeeded x json
                    | NotOk json \<Rightarrow> Failed x json
                    | Threw e \<Rightarrow> Failed x e)
         (enumerate (length (jcalls v)) xs)"
  by (induction xs arbitrary: v)
     (auto simp: Let_def postSlack_def split_beta split: reply.splits)

lemma setStatusOnObjects_slack:
  "jslack (snd (setStatusOnObjects J lvl xs st v)) =
     jslack v @ concat (map (\<lambda>(k, x). case fetch_post J k x st of
                                         Ok json \<Rightarrow> []
                                       | NotOk json \<Rightarrow> [json]
                                       | Threw e \<Rightarrow> [e])
                            (enumerate (length (jcalls v)) xs))"
  by (induction xs arbitrary: v)
     (auto simp: Let_def postSlack_def split_beta split: reply.splits)

lemma startsWith_iff: "startsWith s sub \<longleftrightarrow> (\<exists>q. s = sub @ q)"
  by (induction s sub rule: startsWith.induct) auto

lemma includes_str_iff: "includes_str s sub \<longleftrightarrow> (\<exists>p q. s = p @ sub @ q)"
proof (induction s)
  case Nil
  then show ?case by auto
next
  case (Cons x xs)
  show ?case
  proof
    assume "includes_str (x # xs) sub"
    then consider "startsWith (x # xs) sub" | "includes_str xs sub" by auto
    then show "\<exists>p q. x # xs = p @ sub @ q"
    proof cases
      case 1
      then obtain q where "x # xs = sub @ q" by (auto simp: startsWith_iff)
      then have "x # xs = [] @ sub @ q" by simp
      then show ?thesis by blast
    next
      case 2
      with Cons obtain p q where "xs = p @ sub @ q" by auto
      then have "x # xs = (x # p) @ sub @ q" by simp
      then show ?thesis by blast
    qed
  next
    assume "\<exists>p q. x # xs = p @ sub @ q"
    then obtain p q where pq: "x # xs = p @ sub @ q" by blast
    show "includes_str (x # xs) sub"
    proof (cases p)
      case Nil
      with pq have "startsWith (x # xs) sub" by (auto simp: startsWith_iff)
      then show ?thesis by simp
    next
      case (Cons y ys)
      with pq have "xs = ys @ sub @ q" by simp
      with Cons.IH have "includes_str xs sub" by blast
      then show ?thesis by simp
    qed
  qed
qed

lemma findTargets_from_result:
  "fst (findTargets_from E node f i url out w) = Inr res \<Longrightarrow>
   res = out @ kept_ids f (pages_walked E (10 - i) url)"
proof (induction E node f i url out w rule: findTargets_from.induct)
  case (1 E node f i url out w)
  show ?case
  proof (cases url)
    case None
    with "1.prems" show ?thesis
      by (cases "10 - i") (simp_all add: findTargets_from.simps kept_ids_def)
  next
    case (Some u)
    show ?thesis
    proof (cases "i < 10 \<and> u \<noteq> []")
      case False
      with Some "1.prems" show ?thesis
        by (cases "10 - i") (auto simp: findTargets_from.simps kept_ids_def)
    next
      case True
      then have suc: "10 - i = Suc (10 - (i + 1))" by arith
      show ?thesis
      proof (cases "fetch_get E u")
        case (Threw e)
        with Some True "1.prems" show ?thesis by (simp add: findTargets_from.simps)
      next
        case (NotOk js)
        with Some True "1.prems" suc show ?thesis
          by (simp add: findTargets_from.simps kept_ids_def)
      next
        case (Ok pg)
        from "1.prems" Some True Ok
        have "fst (findTargets_from E node f (i + 1) (page_next pg)
                 (out @ map item_id (filter (keeps f) (page_data pg)))
                 (w\<lparr>jgets := jgets w @ [u]\<rparr>)) = Inr res"
          by (subst (asm) findTargets_from.simps) simp
        from "1.IH" [OF Some True refl Ok this] Some True Ok suc show ?thesis
          by (simp add: kept_ids_def)
      qed
    qed
  qed
qed

lemma findTargets_from_gets:
  "\<exists>rest. jgets (snd (findTargets_from E node f i url out w)) = jgets w @ rest \<and>
          length rest \<le> 10 - i"
proof (induction E node f i url out w rule: findTargets_from.induct)
  case (1 E node f i url out w)
  show ?case
  proof (cases url)
    case None
    then show ?thesis by (simp add: findTargets_from.simps)
  next
    case (Some u)
    show ?thesis
    proof (cases "i < 10 \<and> u \<noteq> []")
      case False
      with Some show ?thesis by (auto simp: findTargets_from.simps)
    next
      case True
      show ?thesis
      proof (cases "fetch_get E u")
        case (Threw e)
        with Some True show ?thesis by (auto simp: findTargets_from.simps)
      next
        case (NotOk js)
        with Some True show ?thesis by (auto simp: findTargets_from.simps postSlack_def)
      next
        case (Ok pg)
        from "1.IH" [OF Some True refl Ok]
        obtain rest where r: "jgets (snd (findTargets_from E node f (i + 1) (page_next pg)
                 (out @ map item_id (filter (keeps f) (page_data pg)))
                 (w\<lparr>jgets := jgets w @ [u]\<rparr>))) = (jgets w @ [u]) @ rest"
           and l: "length rest \<le> 10 - (i + 1)" by auto
        from True l have "Suc (length rest) \<le> 10 - i" by arith
        then have "length (u # rest) \<le> 10 - i" by simp
        with r Some True Ok show ?thesis
          by (subst findTargets_from.simps) simp
      qed
    qed
  qed
qed

lemma findTargets_from_calls:
  "jcalls (snd (findTargets_from E node f i url out w)) = jcalls w"
proof (induction E node f i url out w rule: findTargets_from.induct)
  case (1 E node f i url out w)
  show ?case
  proof (cases url)
    case None
    then show ?thesis by (simp add: findTargets_from.simps)
  next
    case (Some u)
    show ?thesis
    proof (cases "i < 10 \<and> u \<noteq> []")
      case False
      with Some show ?thesis by (auto simp: findTargets_from.simps)
    next
      case True
      show ?thesis
      proof (cases "fetch_get E u")
        case (Threw e)
        with Some True show ?thesis by (simp add: findTargets_from.simps)
      next
        case (NotOk js)
        with Some True show ?thesis by (simp add: findTargets_from.simps postSlack_def)
      next
        case (Ok pg)
        from "1.IH" [OF Some True refl Ok] Some True Ok show ?thesis
          by (subst findTargets_from.simps) simp
      qed
    qed
  qed
qed

lemma findTargets_from_returns:
  "(\<forall>u e. fetch_get E u \<noteq> Threw e) \<Longrightarrow> \<exists>res. fst (findTargets_from E node f i url out w) = Inr res"
proof (induction E node f i url out w rule: findTargets_from.induct)
  case (1 E node f i url out w)
  show ?case
  proof (cases url)
    case None
    then show ?thesis by (simp add: findTargets_from.simps)
  next
    case (Some u)
    show ?thesis
    proof (cases "i < 10 \<and> u \<noteq> []")
      case False
      with Some show ?thesis by (auto simp: findTargets_from.simps)
    next
      case True
      show ?thesis
      proof (cases "fetch_get E u")
        case (Threw e)
        with "1.prems" show ?thesis by blast
      next
        case (NotOk js)
        with Some True show ?thesis by (simp add: findTargets_from.simps postSlack_def)
      next
        case (Ok pg)
        from "1.IH" [OF Some True refl Ok "1.prems"] Some True Ok show ?thesis
          by (subst findTargets_from.simps) simp
      qed
    qed
  qed
qed

lemma length_pages_walked: "length (pages_walked E n url) \<le> n"
  by (induction n arbitrary: url) (auto split: option.splits reply.splits)

lemma everyXMins_accepted: "cron_accepts (EveryMinutes (everyXMins r))"
  by (simp add: everyXMins_def)

lemma every_json_accepted: "cron_accepts (EveryMinutes (every_json r))"
  by (simp add: every_json_def)

lemma scheduleRule_enabled:
  "enabled r \<Longrightarrow> times_ok r \<Longrightarrow>
   scheduleRule dtz r s =
     (None,
      let u = unscheduleRule (rule_id r) s; n = created (crons u)
      in u\<lparr>crons := \<lparr>running = (running (crons u))(n \<mapsto> stop_task dtz r, Suc n \<mapsto> start_task dtz r,
                                   Suc (Suc n) \<mapsto> periodic_task dtz r),
                      created = Suc (Suc (Suc n))\<rparr>,
           jobs := (jobs u)(rule_id r \<mapsto> \<lparr>job_stop = n, job_start = Suc n, job_enforce = Suc (Suc n)\<rparr>)\<rparr>)"
  using everyXMins_accepted [of r]
  by (cases "stop_time r"; cases "start_time r")
     (simp add: scheduleRule_def cron_schedule_def Let_def stop_task_def start_task_def
        periodic_task_def tz_of_def times_ok_def)

lemma scheduleRule_disabled:
  "\<not> enabled r \<Longrightarrow> scheduleRule dtz r s = (None, unscheduleRule (rule_id r) s)"
  by (simp add: scheduleRule_def Let_def)

lemma scheduleRule_returned:
  "fst (scheduleRule dtz r s) = None \<Longrightarrow> enabled r \<Longrightarrow> times_ok r"
  by (cases "stop_time r"; cases "start_time r")
     (auto simp: scheduleRule_def cron_schedule_def Let_def times_ok_def split: if_splits)

lemma scheduleRule_json_eq:
  "times_ok_json r \<Longrightarrow>
   scheduleRule_json dtz r s =
     (None,
      let u = unschedule (jid r) s; n = created (jcrons u)
      in u\<lparr>jcrons := \<lparr>running = (running (jcrons u))(n \<mapsto> edge_task dtz r (stop r) PAUSED,
                                   Suc n \<mapsto> edge_task dtz r (start r) ACTIVE,
                                   Suc (Suc n) \<mapsto> periodic_task_json dtz r),
                      created = Suc (Suc (Suc n))\<rparr>,
           schedulers := (schedulers u)(jid r \<mapsto> [n, Suc n, Suc (Suc n)])\<rparr>)"
  using every_json_accepted [of r]
  by (cases "stop r"; cases "start r")
     (simp add: scheduleRule_json_def cron_schedule_def Let_def edge_task_def cronForTime_def
        periodic_task_json_def times_ok_json_def)

lemma scheduleRule_json_returned:
  "fst (scheduleRule_json dtz r s) = None \<Longrightarrow> times_ok_json r"
  by (cases "stop r"; cases "start r")
     (auto simp: scheduleRule_json_def cron_schedule_def Let_def times_ok_json_def
        cronForTime_def split: if_splits)

lemma cancel_ok:
  assumes o: "owned_ok c H" and t: "holds_tasks c H T"
  shows "owned_ok (fst (cancel k (c, H))) (snd (cancel k (c, H))) \<and>
         holds_tasks (fst (cancel k (c, H))) (snd (cancel k (c, H))) (T(k := None)) \<and>
         snd (cancel k (c, H)) k = None"
proof (cases "H k")
  case None
  with t have "T k = None" unfolding holds_tasks_def by (metis map_option_is_None)
  
  then have "T(k := None) = T" by auto
  with None o t show ?thesis by (simp add: cancel_def)
next
  case (Some hs)
  let ?c = "fold task_stop hs c" and ?H = "H(k := None)"
  have eq: "cancel k (c, H) = (?c, ?H)" using Some by (simp add: cancel_def)
  have tk: "map_option (map (running c)) (H k') = map_option (map Some) (T k')" for k'
    using t unfolding holds_tasks_def by blast
  have run: "running ?c h = (if h \<in> set hs then None else running c h)" for h
    by (simp add: running_fold_stop)
  have disj: "H k' = Some hs' \<Longrightarrow> k' \<noteq> k \<Longrightarrow> set hs' \<inter> set hs = {}" for k' hs'
    using o Some unfolding owned_ok_def by blast
  have a: "(running ?c h \<noteq> None) = (\<exists>k' hs'. ?H k' = Some hs' \<and> h \<in> set hs')" for h
  proof
    assume "running ?c h \<noteq> None"
    then have nh: "h \<notin> set hs" and "running c h \<noteq> None" by (auto simp: run split: if_splits)
    then obtain k' hs' where k': "H k' = Some hs'" "h \<in> set hs'"
      using o unfolding owned_ok_def by blast
    with nh Some have "k' \<noteq> k" by auto
    with k' show "\<exists>k' hs'. ?H k' = Some hs' \<and> h \<in> set hs'" by auto
  next
    assume "\<exists>k' hs'. ?H k' = Some hs' \<and> h \<in> set hs'"
    then obtain k' hs' where k': "H k' = Some hs'" "k' \<noteq> k" "h \<in> set hs'"
      by (auto split: if_splits)
    with disj have "h \<notin> set hs" by blast
    moreover from k' o have "running c h \<noteq> None" unfolding owned_ok_def by blast
    ultimately show "running ?c h \<noteq> None" by (simp add: run)
  qed
  have b: "\<forall>k' hs'. ?H k' = Some hs' \<longrightarrow> distinct hs'"
    using o unfolding owned_ok_def by (auto split: if_splits)
  have c': "\<forall>k1 k2 h1 h2. ?H k1 = Some h1 \<longrightarrow> ?H k2 = Some h2 \<longrightarrow> k1 \<noteq> k2 \<longrightarrow> set h1 \<inter> set h2 = {}"
    using o unfolding owned_ok_def by (simp split: if_splits)
  have d: "\<forall>h. running ?c h \<noteq> None \<longrightarrow> h < created ?c"
    using o unfolding owned_ok_def by (simp add: run created_fold_stop)
  have e: "map_option (map (running ?c)) (?H k') = map_option (map Some) ((T(k := None)) k')" for k'
  proof (cases "k' = k")
    case True
    then show ?thesis by simp
  next
    case False
    show ?thesis
    proof (cases "H k'")
      case None
      with tk [of k'] False show ?thesis by simp
    next
      case hs': (Some hs')
      with disj False have "set hs' \<inter> set hs = {}" by blast
      then have m: "map (running ?c) hs' = map (running c) hs'"
        by (auto simp: run)
      from tk [of k'] False hs' show ?thesis by (simp add: m)
    qed
  qed
  from a b c' d e show ?thesis
    unfolding eq owned_ok_def holds_tasks_def by simp
qed

lemma install_ok:
  assumes o: "owned_ok c H" and t: "holds_tasks c H T" and free: "H k = None"
  shows "owned_ok (fst (install k a b d (c, H))) (snd (install k a b d (c, H))) \<and>
         holds_tasks (fst (install k a b d (c, H))) (snd (install k a b d (c, H)))
           (T(k \<mapsto> [a, b, d]))"
proof -
  let ?n = "created c"
  let ?c = "\<lparr>running = (running c)(?n \<mapsto> a, Suc ?n \<mapsto> b, Suc (Suc ?n) \<mapsto> d),
             created = Suc (Suc (Suc ?n))\<rparr>"
  let ?H = "H(k \<mapsto> [?n, Suc ?n, Suc (Suc ?n)])"
  have eq: "install k a b d (c, H) = (?c, ?H)" by (simp add: install_def Let_def)
  have tk: "map_option (map (running c)) (H k') = map_option (map Some) (T k')" for k'
    using t unfolding holds_tasks_def by blast
  have old: "H k' = Some hs' \<Longrightarrow> h \<in> set hs' \<Longrightarrow> h < ?n" for k' hs' h
    using o unfolding owned_ok_def by blast
  have a: "(running ?c h \<noteq> None) = (\<exists>k' hs'. ?H k' = Some hs' \<and> h \<in> set hs')" for h
  proof (cases "h = ?n \<or> h = Suc ?n \<or> h = Suc (Suc ?n)")
    case True
    then have "running ?c h \<noteq> None" by auto
    moreover from True have "?H k = Some [?n, Suc ?n, Suc (Suc ?n)] \<and> h \<in> set [?n, Suc ?n, Suc (Suc ?n)]"
      by auto
    ultimately show ?thesis by blast
  next
    case False
    then have "(running ?c h \<noteq> None) = (running c h \<noteq> None)" by simp
    also have "\<dots> = (\<exists>k' hs'. H k' = Some hs' \<and> h \<in> set hs')"
      using o unfolding owned_ok_def by blast
    also have "\<dots> = (\<exists>k' hs'. ?H k' = Some hs' \<and> h \<in> set hs')"
    proof
      assume "\<exists>k' hs'. H k' = Some hs' \<and> h \<in> set hs'"
      then obtain k' hs' where l: "H k' = Some hs'" "h \<in> set hs'" by blast
      with free have "k' \<noteq> k" by auto
      with l have "?H k' = Some hs' \<and> h \<in> set hs'" by simp
      then show "\<exists>k' hs'. ?H k' = Some hs' \<and> h \<in> set hs'" by blast
    next
      assume "\<exists>k' hs'. ?H k' = Some hs' \<and> h \<in> set hs'"
      then obtain k' hs' where r: "?H k' = Some hs'" "h \<in> set hs'" by blast
      with False have "k' \<noteq> k" by auto
      with r have "H k' = Some hs'" by simp
      with r show "\<exists>k' hs'. H k' = Some hs' \<and> h \<in> set hs'" by blast
    qed
    finally show ?thesis .
  qed
  have b: "\<forall>k' hs'. ?H k' = Some hs' \<longrightarrow> distinct hs'"
    using o unfolding owned_ok_def by (auto split: if_splits)
  have c': "\<forall>k1 k2 h1 h2. ?H k1 = Some h1 \<longrightarrow> ?H k2 = Some h2 \<longrightarrow> k1 \<noteq> k2 \<longrightarrow> set h1 \<inter> set h2 = {}"
  proof (intro allI impI)
    fix k1 k2 h1 h2
    assume 1: "?H k1 = Some h1" and 2: "?H k2 = Some h2" and ne: "k1 \<noteq> k2"
    show "set h1 \<inter> set h2 = {}"
    proof (cases "k1 = k")
      case True
      with 1 2 ne have "h1 = [?n, Suc ?n, Suc (Suc ?n)]" "H k2 = Some h2" by auto
      with old [of k2 h2] show ?thesis by fastforce
    next
      case k1: False
      show ?thesis
      proof (cases "k2 = k")
        case True
        with 1 2 k1 have "h2 = [?n, Suc ?n, Suc (Suc ?n)]" "H k1 = Some h1" by auto
        with old [of k1 h1] show ?thesis by fastforce
      next
        case False
        with 1 2 k1 have "H k1 = Some h1" "H k2 = Some h2" by auto
        with ne o show ?thesis unfolding owned_ok_def by blast
      qed
    qed
  qed
  have d: "\<forall>h. running ?c h \<noteq> None \<longrightarrow> h < created ?c"
    using o unfolding owned_ok_def by (auto split: if_splits simp: less_Suc_eq)
  have e: "map_option (map (running ?c)) (?H k') = map_option (map Some) ((T(k \<mapsto> [a, b, d])) k')" for k'
  proof (cases "k' = k")
    case True
    then show ?thesis by simp
  next
    case False
    show ?thesis
    proof (cases "H k'")
      case None
      with tk [of k'] False show ?thesis by simp
    next
      case hs': (Some hs')
      with old have "\<forall>h \<in> set hs'. h < ?n" by blast
      then have m: "map ((running c)(?n \<mapsto> a, Suc ?n \<mapsto> b, Suc (Suc ?n) \<mapsto> d)) hs'
                      = map (running c) hs'"
        by auto
      from tk [of k'] False hs' show ?thesis by (simp add: m)
    qed
  qed
  from a b c' d e show ?thesis
    unfolding eq owned_ok_def holds_tasks_def by simp
qed

lemma listing_url_nonempty: "listing_url a lvl \<noteq> []"
  by (simp add: listing_url_def)

lemma findTargetsByName_result:
  "fst (findTargetsByName E a lvl f v) = Inr res \<Longrightarrow>
   res = kept_ids f (pages_walked E 10 (Some (listing_url a lvl)))"
  using findTargets_from_result [of E "node_of lvl" f 0 "Some (listing_url a lvl)" "[]" v res]
  by (simp add: findTargetsByName_def)

lemma findTargetsByName_calls: "jcalls (snd (findTargetsByName E a lvl f v)) = jcalls v"
  by (simp add: findTargetsByName_def findTargets_from_calls)

lemma findTargetsByName_returns:
  "(\<forall>u e. fetch_get E u \<noteq> Threw e) \<Longrightarrow> \<exists>res. fst (findTargetsByName E a lvl f v) = Inr res"
  by (simp add: findTargetsByName_def findTargets_from_returns)

lemma findTargetsByName_gets:
  "\<exists>rest. jgets (snd (findTargetsByName E a lvl f v)) = jgets v @ listing_url a lvl # rest \<and>
          length rest < 10"
proof (cases "fetch_get E (listing_url a lvl)")
  case (Threw e)
  then show ?thesis
    by (simp add: findTargetsByName_def findTargets_from.simps [of E _ f 0] listing_url_nonempty)
next
  case (NotOk js)
  then show ?thesis
    by (simp add: findTargetsByName_def findTargets_from.simps [of E _ f 0] listing_url_nonempty
          postSlack_def)
next
  case (Ok pg)
  let ?v1 = "v\<lparr>jgets := jgets v @ [listing_url a lvl]\<rparr>"
  let ?out = "map item_id (filter (keeps f) (page_data pg))"
  from findTargets_from_gets [of E "node_of lvl" f 1 "page_next pg" ?out ?v1]
  obtain rest where r: "jgets (snd (findTargets_from E (node_of lvl) f 1 (page_next pg) ?out ?v1))
                          = jgets ?v1 @ rest" and l: "length rest \<le> 10 - 1"
    by blast
  from l have "length rest < 10" by simp
  moreover from Ok r
  have "jgets (snd (findTargetsByName E a lvl f v)) = jgets v @ listing_url a lvl # rest"
    by (simp add: findTargetsByName_def findTargets_from.simps [of E _ f 0] listing_url_nonempty)
  ultimately show ?thesis by blast
qed

lemma kept_ids_all: "kept_ids [] pgs = concat (map (\<lambda>pg. map item_id (page_data pg)) pgs)"
  by (simp add: kept_ids_def keeps_def)

lemma ruleTargets_calls: "jcalls (snd (ruleTargets J j v)) = jcalls v"
  by (simp add: ruleTargets_def findTargetsByName_calls)

lemma edgeApply_calls:
  "fst (ruleTargets J j v) = Inr res \<Longrightarrow>
   jcalls (snd (edgeApply J j st v)) = jcalls v @ map (\<lambda>x. (x, st)) res"
proof -
  assume a: "fst (ruleTargets J j v) = Inr res"
  obtain x v1 where rt: "ruleTargets J j v = (x, v1)" by (cases "ruleTargets J j v")
  with a have x: "x = Inr res" by simp
  from rt have "jcalls v1 = jcalls v" using ruleTargets_calls [of J j v] by simp
  with rt x show ?thesis by (simp add: edgeApply_def setStatusOnObjects_calls)
qed


lemma getTargets_bare:
  "target_ids r = [] \<Longrightarrow> name_filter r = None \<or> name_filter r = Some [] \<Longrightarrow>
   getTargets E r w = (Inr [], w)"
  by (auto simp: getTargets_def)

lemma enforce_bare:
  "target_ids r = [] \<Longrightarrow> name_filter r = None \<or> name_filter r = Some [] \<Longrightarrow>
   enforce E r d now w =
     (if zoneLocal E (timezone r) now = None then Some RangeError else None, w)"
  by (auto simp: enforce_def getTargets_bare split: option.splits)

lemma job_handles_unscheduleRule:
  "job_handles (unscheduleRule k s) = (job_handles s)(k := None)"
  by (auto simp: job_handles_def unscheduleRule_def fun_eq_iff split: option.splits)

lemma unscheduleRule_view:
  "(crons (unscheduleRule k s), job_handles (unscheduleRule k s)) = cancel k (crons s, job_handles s)"
proof (cases "jobs s k")
  case None
  then show ?thesis by (simp add: unscheduleRule_def cancel_def job_handles_def)
next
  case (Some j)
  then have "crons (unscheduleRule k s) = fold task_stop (job_values j) (crons s)"
    by (simp add: unscheduleRule_def)
  with Some show ?thesis
    by (simp add: cancel_def job_handles_unscheduleRule) (simp add: job_handles_def)
qed

lemma scheduleRule_view:
  assumes "enabled r" and "times_ok r"
  shows "(crons (snd (scheduleRule dtz r s)), job_handles (snd (scheduleRule dtz r s)))
           = install (rule_id r) (stop_task dtz r) (start_task dtz r) (periodic_task dtz r)
               (cancel (rule_id r) (crons s, job_handles s))"
proof -
  let ?u = "unscheduleRule (rule_id r) s"
  have "job_handles (snd (scheduleRule dtz r s))
          = (job_handles ?u)(rule_id r \<mapsto> [created (crons ?u), Suc (created (crons ?u)),
                                              Suc (Suc (created (crons ?u)))])"
    using assms
    by (auto simp: scheduleRule_enabled Let_def job_handles_def job_values_def fun_eq_iff)
  moreover have "crons (snd (scheduleRule dtz r s))
          = \<lparr>running = (running (crons ?u))(created (crons ?u) \<mapsto> stop_task dtz r,
                 Suc (created (crons ?u)) \<mapsto> start_task dtz r,
                 Suc (Suc (created (crons ?u))) \<mapsto> periodic_task dtz r),
             created = Suc (Suc (Suc (created (crons ?u))))\<rparr>"
    using assms by (simp add: scheduleRule_enabled Let_def)
  ultimately show ?thesis
    unfolding unscheduleRule_view [symmetric] by (simp add: install_def Let_def)
qed

lemma unscheduleRule_ok:
  assumes "sched_ok s T"
  shows "sched_ok (unscheduleRule k s) (T(k := None)) \<and> job_handles (unscheduleRule k s) k = None"
  using cancel_ok [of "crons s" "job_handles s" T k] assms
  unfolding sched_ok_def unscheduleRule_view [symmetric] by simp

lemma scheduleRule_ok:
  assumes "sched_ok s T" and ret: "fst (scheduleRule dtz r s) = None"
  shows "sched_ok (snd (scheduleRule dtz r s)) (T(rule_id r := entry dtz r))"
proof (cases "enabled r")
  case False
  with unscheduleRule_ok [OF assms(1), of "rule_id r"] show ?thesis
    by (simp add: scheduleRule_disabled entry_def)
next
  case True
  from ret True have ok: "times_ok r" by (rule scheduleRule_returned)
  let ?u = "unscheduleRule (rule_id r) s"
  let ?sc = "snd (scheduleRule dtz r s)"
  from unscheduleRule_ok [OF assms(1), of "rule_id r"]
  have u: "owned_ok (crons ?u) (job_handles ?u)"
          "holds_tasks (crons ?u) (job_handles ?u) (T(rule_id r := None))"
          "job_handles ?u (rule_id r) = None"
    by (simp_all add: sched_ok_def)
  have v: "(crons ?sc, job_handles ?sc)
             = install (rule_id r) (stop_task dtz r) (start_task dtz r) (periodic_task dtz r)
                 (crons ?u, job_handles ?u)"
    unfolding unscheduleRule_view by (rule scheduleRule_view [OF True ok])
  from v have c: "crons ?sc
             = fst (install (rule_id r) (stop_task dtz r) (start_task dtz r) (periodic_task dtz r)
                 (crons ?u, job_handles ?u))"
    by (metis fst_conv)
  from v have h: "job_handles ?sc
             = snd (install (rule_id r) (stop_task dtz r) (start_task dtz r) (periodic_task dtz r)
                 (crons ?u, job_handles ?u))"
    by (metis snd_conv)
  from install_ok [OF u, of "stop_task dtz r" "start_task dtz r" "periodic_task dtz r"] True
  show ?thesis
    unfolding sched_ok_def c h by (simp add: entry_def)
qed

lemma trigger_set_entry:
  "trigger_set dtz rows k = (case find (\<lambda>r. rule_id r = k) rows of None \<Rightarrow> None | Some r \<Rightarrow> entry dtz r)"
  by (simp add: trigger_set_def entry_def split: option.splits)

lemma find_append_fresh:
  "find P (xs @ [x]) = (case find P xs of None \<Rightarrow> (if P x then Some x else None) | Some y \<Rightarrow> Some y)"
  by (induction xs) auto

lemma find_None_id: "k \<notin> rule_id ` set rows \<Longrightarrow> find (\<lambda>r. rule_id r = k) rows = None"
  by (induction rows) auto

lemma trigger_set_append:
  "rule_id row \<notin> rule_id ` set rows \<Longrightarrow>
   trigger_set dtz (rows @ [row]) = (trigger_set dtz rows)(rule_id row := entry dtz row)"
proof (rule ext)
  fix k
  assume f: "rule_id row \<notin> rule_id ` set rows"
  show "trigger_set dtz (rows @ [row]) k = ((trigger_set dtz rows)(rule_id row := entry dtz row)) k"
  proof (cases "k = rule_id row")
    case True
    with f show ?thesis
      by (simp add: trigger_set_entry find_append_fresh find_None_id)
  next
    case False
    then show ?thesis
      by (auto simp: trigger_set_entry find_append_fresh split: option.splits)
  qed
qed

lemma trigger_set_delete:
  "trigger_set dtz (filter (\<lambda>r. rule_id r \<noteq> k) rows) = (trigger_set dtz rows)(k := None)"
proof (rule ext)
  fix k'
  have "find (\<lambda>r. rule_id r = k') (filter (\<lambda>r. rule_id r \<noteq> k) rows)
          = (if k' = k then None else find (\<lambda>r. rule_id r = k') rows)"
    by (induction rows) auto
  then show "trigger_set dtz (filter (\<lambda>r. rule_id r \<noteq> k) rows) k' = ((trigger_set dtz rows)(k := None)) k'"
    by (simp add: trigger_set_entry)
qed

lemma trigger_set_update:
  assumes "find (\<lambda>r. rule_id r = k) rows = Some row" and "rule_id u = k"
  shows "trigger_set dtz (map (\<lambda>r. if rule_id r = k then u else r) rows)
           = (trigger_set dtz rows)(k := entry dtz u)"
proof (rule ext)
  fix k'
  have "find (\<lambda>r. rule_id r = k') (map (\<lambda>r. if rule_id r = k then u else r) rows)
          = (if k' = k then (case find (\<lambda>r. rule_id r = k) rows of None \<Rightarrow> None | Some x \<Rightarrow> Some u)
             else find (\<lambda>r. rule_id r = k') rows)"
    using assms(2) by (induction rows) auto
  with assms(1)
  show "trigger_set dtz (map (\<lambda>r. if rule_id r = k then u else r) rows) k'
          = ((trigger_set dtz rows)(k := entry dtz u)) k'"
    by (simp add: trigger_set_entry)
qed

lemma fold_entries:
  "distinct (map rule_id rows) \<Longrightarrow>
   fold (record_entry dtz) (filter enabled rows) Map.empty = trigger_set dtz rows"
proof (induction rows rule: rev_induct)
  case Nil
  show ?case by (simp add: trigger_set_def fun_eq_iff)
next
  case (snoc row rows)
  then have f: "rule_id row \<notin> rule_id ` set rows" and d: "distinct (map rule_id rows)"
    by auto
  from f have n: "trigger_set dtz rows (rule_id row) = None"
    by (simp add: trigger_set_entry find_None_id)
  note ih = snoc.IH [OF d]
  show ?case
  proof (cases "enabled row")
    case True
    then have "fold (record_entry dtz) (filter enabled (rows @ [row])) Map.empty
                 = record_entry dtz row (fold (record_entry dtz) (filter enabled rows) Map.empty)"
      by simp
    also have "\<dots> = (trigger_set dtz rows)(rule_id row := entry dtz row)"
      unfolding ih by (simp add: record_entry_def)
    finally show ?thesis
      by (simp only: trigger_set_append [OF f])
  next
    case False
    then have e: "entry dtz row = None" by (simp add: entry_def)
    from False have "fold (record_entry dtz) (filter enabled (rows @ [row])) Map.empty
                 = fold (record_entry dtz) (filter enabled rows) Map.empty"
      by simp
    also have "\<dots> = trigger_set dtz rows" by (rule ih)
    also have "\<dots> = (trigger_set dtz rows)(rule_id row := entry dtz row)"
      using n e by (auto simp: fun_eq_iff)
    finally show ?thesis
      by (simp only: trigger_set_append [OF f])
  qed
qed

lemma init_loop_ok:
  "sched_ok s T \<Longrightarrow> fst (init_loop dtz rs s) = None \<Longrightarrow>
   sched_ok (snd (init_loop dtz rs s)) (fold (record_entry dtz) rs T)"
proof (induction rs arbitrary: s T)
  case Nil
  then show ?case by simp
next
  case (Cons r rs)
  obtain e s1 where sr: "scheduleRule dtz r s = (e, s1)" by (cases "scheduleRule dtz r s")
  show ?case
  proof (cases e)
    case (Some x)
    with sr Cons.prems(2) show ?thesis by simp
  next
    case None
    with sr have f: "fst (scheduleRule dtz r s) = None" and s1: "s1 = snd (scheduleRule dtz r s)"
      by simp_all
    from scheduleRule_ok [OF Cons.prems(1) f]
    have 1: "sched_ok s1 (record_entry dtz r T)" by (simp add: s1 record_entry_def)
    from Cons.prems(2) sr None have 2: "fst (init_loop dtz rs s1) = None" by simp
    from Cons.IH [OF 1 2] sr None show ?thesis by simp
  qed
qed

lemma empty_sched_ok: "sched_ok no_jobs Map.empty"
  by (simp add: sched_ok_def owned_ok_def holds_tasks_def no_jobs_def no_cron_def job_handles_def)

lemma boot_ok:
  assumes "distinct (map rule_id rows)" and "\<forall>r \<in> set rows. rule_id r \<le> n"
    and i: "init dtz \<lparr>db = rows, seq = n, sched = \<lparr>crons = no_cron, jobs = Map.empty\<rparr>\<rparr> = (None, S)"
  shows "server_ok dtz S"
proof -
  let ?l = "init_loop dtz (filter enabled rows) no_jobs"
  from i have f: "fst ?l = None" and S: "S = \<lparr>db = rows, seq = n, sched = snd ?l\<rparr>"
    by (auto simp: init_def no_jobs_def split: prod.splits)
  from init_loop_ok [OF empty_sched_ok f]
  have "sched_ok (snd ?l) (trigger_set dtz rows)"
    by (simp add: fold_entries [OF assms(1)])
  with assms(1,2) show ?thesis
    by (simp add: server_ok_def S)
qed

lemma rule_id_built_row: "rule_id (built_row dtz k a l st sr b) = k"
  by (simp add: built_row_def)

lemma new_row_id: "new_row dtz k b = Some row \<Longrightarrow> rule_id row = k"
  by (auto simp: new_row_def rule_id_built_row split: option.splits if_splits)

lemma post_ok:
  assumes "server_ok dtz S" and p: "post_rules dtz b S = (e, S')"
    and ne: "\<forall>x. e \<noteq> Some (ScheduleFailed x)"
  shows "server_ok dtz S'"
proof (cases "new_row dtz (seq S + 1) b")
  case None
  with assms show ?thesis by (simp add: post_rules_def)
next
  case (Some row)
  then have i: "rule_id row = seq S + 1" by (rule new_row_id)
  from assms have le: "\<forall>r \<in> set (db S). rule_id r \<le> seq S"
    and di: "distinct (map rule_id (db S))"
    and ok: "sched_ok (sched S) (trigger_set dtz (db S))"
    by (simp_all add: server_ok_def)
  let ?sr = "scheduleRule dtz row (sched S)"
  from p Some have e: "e = map_option ScheduleFailed (fst ?sr)"
    and S': "S' = S\<lparr>db := db S @ [row], seq := seq S + 1, sched := snd ?sr\<rparr>"
    by (auto simp: post_rules_def split: prod.splits)
  from e ne have ret: "fst ?sr = None" by (cases "fst ?sr") auto
  from le i have f: "rule_id row \<notin> rule_id ` set (db S)" by auto
  from ok ret have 1: "sched_ok (snd ?sr) (trigger_set dtz (db S @ [row]))"
    unfolding trigger_set_append [OF f] by (rule scheduleRule_ok)
  from di f have 2: "distinct (map rule_id (db S @ [row]))" by simp
  from le i have 3: "\<forall>r \<in> set (db S @ [row]). rule_id r \<le> seq S + 1" by auto
  from 1 2 3 show ?thesis
    unfolding S' server_ok_def by simp
qed

lemma rule_id_merged: "rule_id (merged_row row b) = rule_id row"
  by (simp add: merged_row_def)

lemma patch_ok:
  assumes "server_ok dtz S" and p: "patch_rules dtz k b S = (e, S')"
    and ne: "\<forall>x. e \<noteq> Some (ScheduleFailed x)"
  shows "server_ok dtz S'"
proof (cases "find (\<lambda>r. rule_id r = k) (db S)")
  case None
  with assms show ?thesis by (simp add: patch_rules_def)
next
  case (Some row)
  then have rk: "rule_id row = k" by (auto simp: find_Some_iff)
  let ?u = "merged_row row b"
  have uk: "rule_id ?u = k" using rk by (simp add: rule_id_merged)
  show ?thesis
  proof (cases "level_ok (level ?u)")
    case False
    with assms Some show ?thesis by (simp add: patch_rules_def Let_def)
  next
    case True
    let ?rows = "map (\<lambda>r. if rule_id r = k then ?u else r) (db S)"
    let ?sr = "scheduleRule dtz ?u (sched S)"
    from p Some True have e: "e = map_option ScheduleFailed (fst ?sr)"
      and S': "S' = S\<lparr>db := ?rows, sched := snd ?sr\<rparr>"
      by (auto simp: patch_rules_def Let_def split: prod.splits)
    from e ne have ret: "fst ?sr = None" by (cases "fst ?sr") auto
    have ids: "map rule_id ?rows = map rule_id (db S)"
      using uk by (induction "db S") auto
    from assms have "sched_ok (sched S) (trigger_set dtz (db S))" by (simp add: server_ok_def)
    then have "sched_ok (snd ?sr) (trigger_set dtz ?rows)"
      unfolding trigger_set_update [OF Some uk]
      using scheduleRule_ok [of "sched S" _ dtz ?u, OF _ ret] uk
      by simp
    moreover have "distinct (map rule_id ?rows)"
    proof -
      from assms have "distinct (map rule_id (db S))" by (simp add: server_ok_def)
      then show ?thesis by (simp only: ids)
    qed
    moreover have "\<forall>r \<in> set ?rows. rule_id r \<le> seq S"
    proof
      fix r
      assume m: "r \<in> set ?rows"
      have le: "i \<le> seq S" if "i \<in> set (map rule_id (db S))" for i
        using assms that by (auto simp: server_ok_def)
      from m have "rule_id r \<in> rule_id ` set ?rows" by (rule imageI)
      then have "rule_id r \<in> set (map rule_id ?rows)" by (simp only: set_map)
      then have "rule_id r \<in> set (map rule_id (db S))" by (simp only: ids)
      then show "rule_id r \<le> seq S" by (rule le)
    qed
    ultimately show ?thesis
      unfolding S' by (simp add: server_ok_def)
  qed
qed

lemma delete_ok:
  assumes "server_ok dtz S"
  shows "server_ok dtz (delete_rules k S)"
proof -
  from assms have "sched_ok (sched S) (trigger_set dtz (db S))" by (simp add: server_ok_def)
  then have "sched_ok (unscheduleRule k (sched S)) (trigger_set dtz (filter (\<lambda>r. rule_id r \<noteq> k) (db S)))"
    unfolding trigger_set_delete using unscheduleRule_ok by blast
  with assms show ?thesis
    by (simp add: delete_rules_def server_ok_def distinct_map_filter)
qed

lemma reachable_ok: "reachable dtz S \<Longrightarrow> server_ok dtz S"
proof (induction rule: reachable.induct)
  case (boot rows n s)
  then show ?case by (rule boot_ok)
next
  case (post s b e s')
  from post.IH post.hyps(2,3) show ?case by (rule post_ok)
next
  case (patch s k b e s')
  from patch.IH patch.hyps(2,3) show ?case by (rule patch_ok)
next
  case (delete s k)
  then show ?case by (simp add: delete_ok)
qed

lemma unschedule_view:
  "(jcrons (unschedule k s), schedulers (unschedule k s)) = cancel k (jcrons s, schedulers s)"
  by (cases "schedulers s k") (simp_all add: unschedule_def cancel_def)

lemma scheduleRule_json_view:
  assumes "times_ok_json r"
  shows "(jcrons (snd (scheduleRule_json dtz r s)), schedulers (snd (scheduleRule_json dtz r s)))
     = install (jid r) (edge_task dtz r (stop r) PAUSED) (edge_task dtz r (start r) ACTIVE)
         (periodic_task_json dtz r) (cancel (jid r) (jcrons s, schedulers s))"
  unfolding unschedule_view [symmetric]
  by (simp add: scheduleRule_json_eq [OF assms] install_def Let_def)

lemma unschedule_ok:
  assumes "jsched_ok s T"
  shows "jsched_ok (unschedule k s) (T(k := None)) \<and> schedulers (unschedule k s) k = None"
  using cancel_ok [of "jcrons s" "schedulers s" T k] assms
  unfolding jsched_ok_def unschedule_view [symmetric] by simp

lemma scheduleRule_json_ok:
  assumes "jsched_ok s T" and ret: "fst (scheduleRule_json dtz r s) = None"
  shows "jsched_ok (snd (scheduleRule_json dtz r s)) (T(jid r \<mapsto> entry_json dtz r))"
proof -
  from ret have ok: "times_ok_json r" by (rule scheduleRule_json_returned)
  let ?u = "unschedule (jid r) s"
  let ?sc = "snd (scheduleRule_json dtz r s)"
  from unschedule_ok [OF assms(1), of "jid r"]
  have u: "owned_ok (jcrons ?u) (schedulers ?u)"
          "holds_tasks (jcrons ?u) (schedulers ?u) (T(jid r := None))"
          "schedulers ?u (jid r) = None"
    by (simp_all add: jsched_ok_def)
  have v: "(jcrons ?sc, schedulers ?sc)
             = install (jid r) (edge_task dtz r (stop r) PAUSED) (edge_task dtz r (start r) ACTIVE)
                 (periodic_task_json dtz r) (jcrons ?u, schedulers ?u)"
    unfolding unschedule_view by (rule scheduleRule_json_view [OF ok])
  from v have c: "jcrons ?sc
             = fst (install (jid r) (edge_task dtz r (stop r) PAUSED)
                 (edge_task dtz r (start r) ACTIVE) (periodic_task_json dtz r)
                 (jcrons ?u, schedulers ?u))"
    by (metis fst_conv)
  from v have h: "schedulers ?sc
             = snd (install (jid r) (edge_task dtz r (stop r) PAUSED)
                 (edge_task dtz r (start r) ACTIVE) (periodic_task_json dtz r)
                 (jcrons ?u, schedulers ?u))"
    by (metis snd_conv)
  from install_ok [OF u, of "edge_task dtz r (stop r) PAUSED" "edge_task dtz r (start r) ACTIVE"
         "periodic_task_json dtz r"]
  show ?thesis
    unfolding jsched_ok_def c h by (simp add: entry_json_def)
qed

lemma find_distinct_rule:
  "distinct (map rule_id rows) \<Longrightarrow> r \<in> set rows \<Longrightarrow>
   find (\<lambda>x. rule_id x = rule_id r) rows = Some r"
  by (induction rows) auto

lemma find_rule_sound:
  "find (\<lambda>x. rule_id x = k) rows = Some r \<Longrightarrow> r \<in> set rows \<and> rule_id r = k"
  by (induction rows) (auto split: if_splits)

lemma job_handles_Some:
  "(job_handles s k = Some hs) = (\<exists>j. jobs s k = Some j \<and> hs = job_values j)"
  by (cases "jobs s k") (auto simp: job_handles_def)

lemma holds_tasks_dom:
  "holds_tasks c H T \<Longrightarrow> (H k \<noteq> None) = (T k \<noteq> None)"
  unfolding holds_tasks_def by (metis map_option_is_None)

lemma holds_tasks_three:
  assumes "holds_tasks c H T" and "T k = Some [a, b, d]"
  shows "\<exists>x y z. H k = Some [x, y, z] \<and> running c x = Some a \<and> running c y = Some b \<and>
           running c z = Some d"
proof -
  from assms have m: "map_option (map (running c)) (H k) = Some [Some a, Some b, Some d]"
    unfolding holds_tasks_def by (metis list.simps(8,9) option.simps(9))
  then obtain hs where hs: "H k = Some hs" and l: "map (running c) hs = [Some a, Some b, Some d]"
    by (cases "H k") auto
  from l obtain x y z where "hs = [x, y, z]"
    by (cases hs; cases "tl hs"; cases "tl (tl hs)"; cases "tl (tl (tl hs))") auto
  with hs l show ?thesis by auto
qed

lemma server_ok_registered:
  assumes "server_ok dtz S"
  shows "(jobs (sched S) k \<noteq> None) = (\<exists>r \<in> set (db S). rule_id r = k \<and> enabled r)"
proof -
  from assms have h: "holds_tasks (crons (sched S)) (job_handles (sched S)) (trigger_set dtz (db S))"
    and d: "distinct (map rule_id (db S))"
    by (simp_all add: server_ok_def sched_ok_def)
  have "(jobs (sched S) k \<noteq> None) = (job_handles (sched S) k \<noteq> None)"
    by (simp add: job_handles_def)
  also have "\<dots> = (trigger_set dtz (db S) k \<noteq> None)"
    using h by (rule holds_tasks_dom)
  also have "\<dots> = (\<exists>r \<in> set (db S). rule_id r = k \<and> enabled r)"
  proof
    assume "trigger_set dtz (db S) k \<noteq> None"
    then obtain r where "find (\<lambda>x. rule_id x = k) (db S) = Some r" and "enabled r"
      by (auto simp: trigger_set_def split: option.splits if_splits)
    with find_rule_sound [of k "db S" r] show "\<exists>r \<in> set (db S). rule_id r = k \<and> enabled r"
      by blast
  next
    assume "\<exists>r \<in> set (db S). rule_id r = k \<and> enabled r"
    then obtain r where r: "r \<in> set (db S)" "rule_id r = k" "enabled r" by blast
    with find_distinct_rule [OF d r(1)] show "trigger_set dtz (db S) k \<noteq> None"
      by (simp add: trigger_set_def)
  qed
  finally show ?thesis .
qed

lemma server_ok_tasks:
  assumes "server_ok dtz S" and r: "r \<in> set (db S)" and e: "enabled r"
  shows "\<exists>j. jobs (sched S) (rule_id r) = Some j \<and>
             running (crons (sched S)) (job_stop j) = Some (stop_task dtz r) \<and>
             running (crons (sched S)) (job_start j) = Some (start_task dtz r) \<and>
             running (crons (sched S)) (job_enforce j) = Some (periodic_task dtz r)"
proof -
  from assms have h: "holds_tasks (crons (sched S)) (job_handles (sched S)) (trigger_set dtz (db S))"
    and d: "distinct (map rule_id (db S))"
    by (simp_all add: server_ok_def sched_ok_def)
  from find_distinct_rule [OF d r] e
  have "trigger_set dtz (db S) (rule_id r)
          = Some [stop_task dtz r, start_task dtz r, periodic_task dtz r]"
    by (simp add: trigger_set_def)
  from holds_tasks_three [OF h this]
  obtain x y z where hk: "job_handles (sched S) (rule_id r) = Some [x, y, z]"
    and t: "running (crons (sched S)) x = Some (stop_task dtz r)"
           "running (crons (sched S)) y = Some (start_task dtz r)"
           "running (crons (sched S)) z = Some (periodic_task dtz r)"
    by blast
  from hk obtain j where j: "jobs (sched S) (rule_id r) = Some j" and v: "job_values j = [x, y, z]"
    by (auto simp: job_handles_def)
  from v have "job_stop j = x" "job_start j = y" "job_enforce j = z"
    by (simp_all add: job_values_def)
  with j t show ?thesis by simp
qed

lemma server_ok_running:
  assumes "server_ok dtz S"
  shows "(running (crons (sched S)) h \<noteq> None)
           = (\<exists>k j. jobs (sched S) k = Some j \<and> h \<in> {job_stop j, job_start j, job_enforce j})"
proof -
  from assms have o: "owned_ok (crons (sched S)) (job_handles (sched S))"
    by (simp add: server_ok_def sched_ok_def)
  then have "(running (crons (sched S)) h \<noteq> None)
               = (\<exists>k hs. job_handles (sched S) k = Some hs \<and> h \<in> set hs)"
    unfolding owned_ok_def by blast
  also have "\<dots> = (\<exists>k j. jobs (sched S) k = Some j \<and> h \<in> set (job_values j))"
    by (simp add: job_handles_Some) blast
  also have "\<dots> = (\<exists>k j. jobs (sched S) k = Some j \<and> h \<in> {job_stop j, job_start j, job_enforce j})"
    by (simp add: job_values_def)
  finally show ?thesis .
qed

lemma server_ok_separate:
  assumes "server_ok dtz S" and "jobs (sched S) k = Some j" and "jobs (sched S) k' = Some j'"
  shows "distinct (job_values j) \<and> (k \<noteq> k' \<longrightarrow> set (job_values j) \<inter> set (job_values j') = {})"
proof -
  from assms(1) have o: "owned_ok (crons (sched S)) (job_handles (sched S))"
    by (simp add: server_ok_def sched_ok_def)
  from assms(2,3) have "job_handles (sched S) k = Some (job_values j)"
    "job_handles (sched S) k' = Some (job_values j')"
    by (simp_all add: job_handles_def)
  with o show ?thesis unfolding owned_ok_def by blast
qed

lemma unscheduleRule_stops:
  "jobs s k = Some j \<Longrightarrow> h \<in> set (job_values j) \<Longrightarrow> running (crons (unscheduleRule k s)) h = None"
  by (simp add: unscheduleRule_def running_fold_stop)

lemma unschedule_stops:
  "schedulers s k = Some hs \<Longrightarrow> h \<in> set hs \<Longrightarrow> running (jcrons (unschedule k s)) h = None"
  by (simp add: unschedule_def running_fold_stop)

lemma unscheduleRule_twice: "unscheduleRule k (unscheduleRule k s) = unscheduleRule k s"
  by (rule unscheduleRule_absent) (simp add: jobs_unscheduleRule)

lemma unschedule_twice: "unschedule k (unschedule k s) = unschedule k s"
  by (rule unschedule_absent) (simp add: schedulers_unschedule)

lemma scheduleRule_cancels_first:
  "scheduleRule dtz r s = scheduleRule dtz r (unscheduleRule (rule_id r) s)"
  by (simp add: scheduleRule_def unscheduleRule_twice)

lemma scheduleRule_json_cancels_first:
  "scheduleRule_json dtz r s = scheduleRule_json dtz r (unschedule (jid r) s)"
  by (simp add: scheduleRule_json_def unschedule_twice)

text \<open>
  As long as no \<^verbatim>\<open>scheduleRule\<close> throws, the registry of the SQLite-backed server
  follows the table: a rule id has a trigger set exactly if the table holds an enabled
  row of that id; its three handles run the tasks built from the row as it is stored
  now; a task runs only if it is a handle of some trigger set; the handles of one
  trigger set are distinct and two trigger sets share none.
\<close>

lemma registry_follows_table:
  assumes "reachable dtz S"
  shows "(\<forall>k. (jobs (sched S) k \<noteq> None) = (\<exists>r \<in> set (db S). rule_id r = k \<and> enabled r)) \<and>
      (\<forall>r \<in> set (db S). enabled r \<longrightarrow>
         (\<exists>j. jobs (sched S) (rule_id r) = Some j \<and>
              running (crons (sched S)) (job_stop j) = Some (stop_task dtz r) \<and>
              running (crons (sched S)) (job_start j) = Some (start_task dtz r) \<and>
              running (crons (sched S)) (job_enforce j) = Some (periodic_task dtz r))) \<and>
      (\<forall>h. (running (crons (sched S)) h \<noteq> None)
            = (\<exists>k j. jobs (sched S) k = Some j \<and> h \<in> {job_stop j, job_start j, job_enforce j})) \<and>
      (\<forall>k k' j j'. jobs (sched S) k = Some j \<and> jobs (sched S) k' = Some j' \<longrightarrow>
         distinct (job_values j) \<and>
         (k \<noteq> k' \<longrightarrow> set (job_values j) \<inter> set (job_values j') = {})) \<and>
      distinct (map rule_id (db S))"
proof -
  from assms have ok: "server_ok dtz S" by (rule reachable_ok)
  have 1: "\<forall>k. (jobs (sched S) k \<noteq> None) = (\<exists>r \<in> set (db S). rule_id r = k \<and> enabled r)"
    using server_ok_registered [OF ok] by blast
  have 2: "\<forall>r \<in> set (db S). enabled r \<longrightarrow>
         (\<exists>j. jobs (sched S) (rule_id r) = Some j \<and>
              running (crons (sched S)) (job_stop j) = Some (stop_task dtz r) \<and>
              running (crons (sched S)) (job_start j) = Some (start_task dtz r) \<and>
              running (crons (sched S)) (job_enforce j) = Some (periodic_task dtz r))"
    using server_ok_tasks [OF ok] by blast
  have 3: "\<forall>h. (running (crons (sched S)) h \<noteq> None)
            = (\<exists>k j. jobs (sched S) k = Some j \<and> h \<in> {job_stop j, job_start j, job_enforce j})"
    using server_ok_running [OF ok] by blast
  have 4: "\<forall>k k' j j'. jobs (sched S) k = Some j \<and> jobs (sched S) k' = Some j' \<longrightarrow>
         distinct (job_values j) \<and>
         (k \<noteq> k' \<longrightarrow> set (job_values j) \<inter> set (job_values j') = {})"
    using server_ok_separate [OF ok] by blast
  from ok have 5: "distinct (map rule_id (db S))" by (simp add: server_ok_def)
  from 1 2 3 4 5 show ?thesis by (intro conjI)
qed

lemma ex_server_reachable: "reachable ''UTC'' ex_server"
proof -
  have i: "init ''UTC'' \<lparr>db = [], seq = 0, sched = \<lparr>crons = no_cron, jobs = Map.empty\<rparr>\<rparr>
             = (None, empty_server)"
    by (simp add: init_def empty_server_def no_jobs_def)
  have b: "reachable ''UTC'' empty_server"
    by (rule reachable.boot [OF _ _ i]) simp_all
  have t: "times_ok (built_row ''UTC'' 1 ''42'' ''campaign'' (22, 0) (6, 0) ex_body)"
    by (simp add: times_ok_def built_row_def)
  have e: "enabled (built_row ''UTC'' 1 ''42'' ''campaign'' (22, 0) (6, 0) ex_body)"
    by (simp add: built_row_def ex_body_def)
  have n: "new_row ''UTC'' 1 ex_body
             = Some (built_row ''UTC'' 1 ''42'' ''campaign'' (22, 0) (6, 0) ex_body)"
    by (simp add: new_row_def ex_body_def level_ok_def)
  have p: "fst (post_rules ''UTC'' ex_body empty_server) = None"
    by (simp add: post_rules_def empty_server_def n scheduleRule_enabled [OF e t]
          split: prod.splits)
  then have "post_rules ''UTC'' ex_body empty_server = (None, ex_server)"
    by (simp add: ex_server_def prod_eq_iff)
  with b show ?thesis
    by (rule reachable.post) simp
qed

text \<open>
  The scenario of the specification on the SQLite-backed server (stop 22:00, start 06:00,
  Mondays, UTC): paused at 23:00 and at 05:59, active at 06:00, and nothing done on a
  Tuesday.
\<close>

lemma scenario_sqlite:
  "periodicDesired ex_rule (23 * 60 + 0) = PAUSED \<and>
   periodicDesired ex_rule (5 * 60 + 59) = PAUSED \<and>
   periodicDesired ex_rule (6 * 60 + 0) = ACTIVE \<and>
   periodicEnforce ex_env ex_rule tue_2300 tue_2300 w0 = (None, w0)"
  by (simp add: periodicDesired_def stopMin_def startMin_def ex_rule_def periodicEnforce_def
        enforce_def ex_env_def ex_zones_def fixedZone_def tue_2300_def weekdayShort_def)

text \<open>
  The periodic check of the SQLite-backed server hands \<^verbatim>\<open>enforce\<close> the status that
  the window rule of the specification gives for the minute it reads; that of the
  JSON-file server applies that status on a weekday that the rule lists.
\<close>

lemma periodicEnforce_window:
  "zoneLocal E (tz_of (DEFAULT_TZ E) r) now = Some lt \<Longrightarrow>
   periodicEnforce E r now now' w =
     enforce E r (desired_state_spec (stopMin r) (startMin r)
                    (lt_hour lt * 60 + lt_minute lt)) now' w"
  by (simp add: periodicEnforce_def tz_of_def periodicDesired_spec)

lemma enforceRule_window:
  "lt_day (hostLocal J t) \<in> set (days j) \<Longrightarrow>
   enforceRule J j t v =
     edgeApply J j (desired_state_spec (t_json (stop j)) (t_json (start j))
                      (lt_hour (hostLocal J t) * 60 + lt_minute (hostLocal J t))) v"
  using inActiveWindow_spec [of "hostLocal J" t j] by (simp add: enforceRule_def)

section \<open>Properties: the claims\<close>

text \<open>
  Claim C1: the code departs from it. The SQLite-backed server computes exactly the
  status of the window rule from the minute of the day and the two boundaries. In the
  JSON-file server \<^verbatim>\<open>inActiveWindow\<close> answers \<^verbatim>\<open>true\<close> for a rule with an empty list
  \<^verbatim>\<open>days\<close> before it looks at the time, so the periodic check of such a rule posts
  the status active at every minute, whatever its window: \<^verbatim>\<open>enforceRule\<close> does what
  the start-edge callback does. For the rule with stop 22:00, start 06:00 and no days,
  at Monday 23:00 on a host in UTC, the window rule gives paused (1380 is at least
  1320), the stop-edge callback of the same rule posts paused, and the periodic check
  posts active.
\<close>

theorem empty_days_always_active:
  "periodicDesired r cur = desired_state_spec (stopMin r) (startMin r) cur \<and>
   inActiveWindow hl (j\<lparr>days := []\<rparr>) now \<and>
   enforceRule J (j\<lparr>days := []\<rparr>) t v = edgeApply J (j\<lparr>days := []\<rparr>) ACTIVE v \<and>
   days nodays_jrule = [] \<and>
   t_json (stop nodays_jrule) = 1320 \<and> t_json (start nodays_jrule) = 360 \<and>
   hostLocal ex_jenv mon_2300 = \<lparr>lt_day = 1, lt_hour = 23, lt_minute = 0\<rparr> \<and>
   desired_state_spec 1320 360 (23 * 60 + 0) = PAUSED \<and>
   jcalls (snd (edgeApply ex_jenv nodays_jrule PAUSED v0)) = [(''a'', PAUSED)] \<and>
   jcalls (snd (enforceRule ex_jenv nodays_jrule mon_2300 v0)) = [(''a'', ACTIVE)]"
proof -
  have a: "periodicDesired r cur = desired_state_spec (stopMin r) (startMin r) cur"
    by (rule periodicDesired_spec)
  have b: "inActiveWindow hl (j\<lparr>days := []\<rparr>) now"
    by (simp add: inActiveWindow_def)
  have c: "enforceRule J (j\<lparr>days := []\<rparr>) t v = edgeApply J (j\<lparr>days := []\<rparr>) ACTIVE v"
    by (simp add: enforceRule_def inActiveWindow_def)
  have d: "days nodays_jrule = [] \<and>
   t_json (stop nodays_jrule) = 1320 \<and> t_json (start nodays_jrule) = 360 \<and>
   hostLocal ex_jenv mon_2300 = \<lparr>lt_day = 1, lt_hour = 23, lt_minute = 0\<rparr> \<and>
   desired_state_spec 1320 360 (23 * 60 + 0) = PAUSED \<and>
   jcalls (snd (edgeApply ex_jenv nodays_jrule PAUSED v0)) = [(''a'', PAUSED)] \<and>
   jcalls (snd (enforceRule ex_jenv nodays_jrule mon_2300 v0)) = [(''a'', ACTIVE)]"
    by (simp add: enforceRule_def edgeApply_def ruleTargets_def nodays_jrule_def ex_jrule_def
          ex_jenv_def inActiveWindow_def fixedZone_def mon_2300_def v0_def accept_fetch_def
          Let_def desired_state_spec_def t_json_def)
  from b c show ?thesis
    unfolding a using d by (intro conjI) simp_all
qed


text \<open>
  Claim C10. Unscheduling a rule id that has no entry in the registry leaves the
  registry and the running tasks as they are, in both servers, and unscheduling twice
  is the same as unscheduling once. Deleting a rule that is neither stored nor
  scheduled leaves the whole server state as it is. No path of either function raises.
\<close>

theorem unschedule_absent_noop:
  "(jobs s k = None \<longrightarrow> unscheduleRule k s = s) \<and>
   unscheduleRule k (unscheduleRule k s) = unscheduleRule k s \<and>
   (schedulers t rid = None \<longrightarrow> unschedule rid t = t) \<and>
   unschedule rid (unschedule rid t) = unschedule rid t \<and>
   (jobs (sched S) k = None \<and> (\<forall>r \<in> set (db S). rule_id r \<noteq> k) \<longrightarrow> delete_rules k S = S) \<and>
   ((\<forall>r \<in> set (rules T). jid r \<noteq> rid) \<longrightarrow> delete_rules_json rid T = T)"
proof -
  have a: "jobs s k = None \<longrightarrow> unscheduleRule k s = s"
    by (simp add: unscheduleRule_absent)
  have b: "unscheduleRule k (unscheduleRule k s) = unscheduleRule k s"
    by (rule unscheduleRule_absent) (simp add: jobs_unscheduleRule)
  have c: "schedulers t rid = None \<longrightarrow> unschedule rid t = t"
    by (simp add: unschedule_absent)
  have d: "unschedule rid (unschedule rid t) = unschedule rid t"
    by (rule unschedule_absent) (simp add: schedulers_unschedule)
  have e: "jobs (sched S) k = None \<and> (\<forall>r \<in> set (db S). rule_id r \<noteq> k) \<longrightarrow> delete_rules k S = S"
  proof
    assume h: "jobs (sched S) k = None \<and> (\<forall>r \<in> set (db S). rule_id r \<noteq> k)"
    then have "filter (\<lambda>r. rule_id r \<noteq> k) (db S) = db S"
      by (simp add: filter_id_conv)
    with h show "delete_rules k S = S"
      by (simp add: delete_rules_def unscheduleRule_absent)
  qed
  have f: "(\<forall>r \<in> set (rules T). jid r \<noteq> rid) \<longrightarrow> delete_rules_json rid T = T"
    by (auto simp: delete_rules_json_def)
  from a b c d e f show ?thesis by blast
qed

theorem unschedule_absent_noop_witness:
  "jobs no_jobs 7 = None \<and> unscheduleRule 7 no_jobs = no_jobs \<and>
   schedulers no_schedulers ''r_7'' = None \<and> unschedule ''r_7'' no_schedulers = no_schedulers \<and>
   jobs (sched \<lparr>db = [ex_rule], seq = 1, sched = no_jobs\<rparr>) 7 = None \<and>
   delete_rules 7 \<lparr>db = [ex_rule], seq = 1, sched = no_jobs\<rparr>
     = \<lparr>db = [ex_rule], seq = 1, sched = no_jobs\<rparr> \<and>
   delete_rules_json ''r_7'' \<lparr>rules = [ex_jrule], jsched = no_schedulers\<rparr>
     = \<lparr>rules = [ex_jrule], jsched = no_schedulers\<rparr>"
  using unschedule_absent_noop [of no_jobs 7 no_schedulers "''r_7''"
          "\<lparr>db = [ex_rule], seq = 1, sched = no_jobs\<rparr>"
          "\<lparr>rules = [ex_jrule], jsched = no_schedulers\<rparr>"]
  by (simp add: no_jobs_def no_schedulers_def ex_rule_def ex_jrule_def)




text \<open>
  Claim C3: the code departs from it. In the JSON-file server \<^verbatim>\<open>enforceRule\<close> takes
  the weekday and the minute of the day from \<^verbatim>\<open>dayjs()\<close>, that is, in the zone of the
  host process; the rule's \<^verbatim>\<open>tz\<close> is used for the cron triggers only. On a host in UTC,
  at Monday 15:00 UTC, a rule of zone Asia/Tokyo (stop 22:00, start 06:00, every
  weekday) is at Tuesday 00:00 local time, inside its pause window, and yet the periodic
  check posts the status active. Whatever zone a rule names, \<^verbatim>\<open>enforceRule\<close> does the
  same.
\<close>

theorem host_zone_evaluation:
  "enforceRule J (j\<lparr>tz := z\<rparr>) t v = enforceRule J j t v \<and>
   tz tokyo_jrule = ''Asia/Tokyo'' \<and>
   ex_zones ''Asia/Tokyo'' mon_1500 = Some \<lparr>lt_day = 2, lt_hour = 0, lt_minute = 0\<rparr> \<and>
   desired_state_spec (t_json (stop tokyo_jrule)) (t_json (start tokyo_jrule)) (0 * 60 + 0)
     = PAUSED \<and>
   hostLocal ex_jenv mon_1500 = \<lparr>lt_day = 1, lt_hour = 15, lt_minute = 0\<rparr> \<and>
   jcalls (snd (enforceRule ex_jenv tokyo_jrule mon_1500 v0)) = [(''a'', ACTIVE)]"
proof -
  have g: "enforceRule J (j\<lparr>tz := z\<rparr>) t v = enforceRule J j t v"
    by (simp add: enforceRule_def inActiveWindow_def edgeApply_def ruleTargets_def
          split: prod.splits sum.splits)
  have c: "tz tokyo_jrule = ''Asia/Tokyo'' \<and>
   ex_zones ''Asia/Tokyo'' mon_1500 = Some \<lparr>lt_day = 2, lt_hour = 0, lt_minute = 0\<rparr> \<and>
   desired_state_spec (t_json (stop tokyo_jrule)) (t_json (start tokyo_jrule)) (0 * 60 + 0)
     = PAUSED \<and>
   hostLocal ex_jenv mon_1500 = \<lparr>lt_day = 1, lt_hour = 15, lt_minute = 0\<rparr> \<and>
   jcalls (snd (enforceRule ex_jenv tokyo_jrule mon_1500 v0)) = [(''a'', ACTIVE)]"
    by (simp add: enforceRule_def edgeApply_def ruleTargets_def ex_jrule_def ex_jenv_def
          inActiveWindow_def fixedZone_def mon_1500_def v0_def accept_fetch_def Let_def
          tokyo_jrule_def ex_zones_def desired_state_spec_def t_json_def)
  from g c show ?thesis by (rule conjI)
qed

text \<open>
  Claim C4, as amended. In the SQLite-backed server \<^verbatim>\<open>setStatus\<close> posts at most three
  status mutations for one object. A first or second attempt that fails with a code of
  the list 1, 2, 4, 17, 32, 613, 80004 is followed, after a delay of 500 ms times the
  attempt number, by the next attempt; a failure with any other code, or a failure of
  the third attempt, is thrown to the caller as the error of that last attempt. Two
  transient failures followed by a success give success after exactly three posts and
  delays of 500 ms and 1000 ms. In the JSON-file server \<^verbatim>\<open>setStatusOnObjects\<close> posts
  exactly one mutation per object, in order, whatever the answers are: it never retries
  and never raises. Its result list has one entry per object, in order: for the
  \<open>k\<close>-th mutation overall, sent for object \<open>x\<close>, a success with the response
  when the response is ok, a failure with the response when it is not, and a failure
  with the text of the exception when the request raised; each failure is also handed to
  \<^verbatim>\<open>postSlack\<close> with that payload, in the same order.
\<close>

theorem bounded_retry:
  "(post_reply E (length (calls w)) oid d = None \<longrightarrow>
      setStatus E oid d w = (Inr (), called oid d w)) \<and>
   (post_reply E (length (calls w)) oid d = Some e0 \<and> \<not> transient e0 \<longrightarrow>
      setStatus E oid d w = (Inl e0, called oid d w)) \<and>
   (post_reply E (length (calls w)) oid d = Some e0 \<and> transient e0 \<and>
    post_reply E (length (calls w) + 1) oid d = None \<longrightarrow>
      setStatus E oid d w = (Inr (), called oid d (slept 500 (called oid d w)))) \<and>
   (post_reply E (length (calls w)) oid d = Some e0 \<and> transient e0 \<and>
    post_reply E (length (calls w) + 1) oid d = Some e1 \<and> \<not> transient e1 \<longrightarrow>
      setStatus E oid d w = (Inl e1, called oid d (slept 500 (called oid d w)))) \<and>
   (post_reply E (length (calls w)) oid d = Some e0 \<and> transient e0 \<and>
    post_reply E (length (calls w) + 1) oid d = Some e1 \<and> transient e1 \<and>
    post_reply E (length (calls w) + 2) oid d = None \<longrightarrow>
      setStatus E oid d w =
        (Inr (), called oid d (slept 1000 (called oid d (slept 500 (called oid d w)))))) \<and>
   (post_reply E (length (calls w)) oid d = Some e0 \<and> transient e0 \<and>
    post_reply E (length (calls w) + 1) oid d = Some e1 \<and> transient e1 \<and>
    post_reply E (length (calls w) + 2) oid d = Some e2 \<longrightarrow>
      setStatus E oid d w =
        (Inl e2, called oid d (slept 1000 (called oid d (slept 500 (called oid d w)))))) \<and>
   length (calls (snd (setStatus E oid d w))) \<le> length (calls w) + 3 \<and>
   transient e = (\<exists>c \<in> {1, 2, 4, 17, 32, 613, 80004}. err_code e = Some c) \<and>
   jcalls (snd (setStatusOnObjects J lvl xs st v)) = jcalls v @ map (\<lambda>x. (x, st)) xs \<and>
   length (fst (setStatusOnObjects J lvl xs st v)) = length xs \<and>
   fst (setStatusOnObjects J lvl xs st v) =
     map (\<lambda>(k, x). case fetch_post J k x st of
                      Ok json \<Rightarrow> Succeeded x json
                    | NotOk json \<Rightarrow> Failed x json
                    | Threw e \<Rightarrow> Failed x e)
         (enumerate (length (jcalls v)) xs) \<and>
   jslack (snd (setStatusOnObjects J lvl xs st v)) =
     jslack v @ concat (map (\<lambda>(k, x). case fetch_post J k x st of
                                         Ok json \<Rightarrow> []
                                       | NotOk json \<Rightarrow> [json]
                                       | Threw e \<Rightarrow> [e])
                            (enumerate (length (jcalls v)) xs)) \<and>
   jgets (snd (setStatusOnObjects J lvl xs st v)) = jgets v"
proof -
  note steps = setStatus_def setStatus_from_step [of "Suc 0"]
    setStatus_from_step [of "Suc (Suc 0)"] setStatus_from_last
  have c1: "post_reply E (length (calls w)) oid d = None \<longrightarrow>
      setStatus E oid d w = (Inr (), called oid d w)"
    by (simp add: steps)
  have c2: "post_reply E (length (calls w)) oid d = Some e0 \<and> \<not> transient e0 \<longrightarrow>
      setStatus E oid d w = (Inl e0, called oid d w)"
    by (simp add: steps)
  have c3: "post_reply E (length (calls w)) oid d = Some e0 \<and> transient e0 \<and>
    post_reply E (length (calls w) + 1) oid d = None \<longrightarrow>
      setStatus E oid d w = (Inr (), called oid d (slept 500 (called oid d w)))"
    by (simp add: steps length_calls_called calls_slept)
  have c4: "post_reply E (length (calls w)) oid d = Some e0 \<and> transient e0 \<and>
    post_reply E (length (calls w) + 1) oid d = Some e1 \<and> \<not> transient e1 \<longrightarrow>
      setStatus E oid d w = (Inl e1, called oid d (slept 500 (called oid d w)))"
    by (simp add: steps length_calls_called calls_slept)
  have c5: "post_reply E (length (calls w)) oid d = Some e0 \<and> transient e0 \<and>
    post_reply E (length (calls w) + 1) oid d = Some e1 \<and> transient e1 \<and>
    post_reply E (length (calls w) + 2) oid d = None \<longrightarrow>
      setStatus E oid d w =
        (Inr (), called oid d (slept 1000 (called oid d (slept 500 (called oid d w)))))"
    by (simp add: steps length_calls_called calls_slept)
  have c6: "post_reply E (length (calls w)) oid d = Some e0 \<and> transient e0 \<and>
    post_reply E (length (calls w) + 1) oid d = Some e1 \<and> transient e1 \<and>
    post_reply E (length (calls w) + 2) oid d = Some e2 \<longrightarrow>
      setStatus E oid d w =
        (Inl e2, called oid d (slept 1000 (called oid d (slept 500 (called oid d w)))))"
    by (simp add: steps length_calls_called calls_slept)
  have c7: "length (calls (snd (setStatus E oid d w))) \<le> length (calls w) + 3"
    using setStatus_from_calls_bound [of E oid d 1 w] by (simp add: setStatus_def)
  have c8: "transient e = (\<exists>c \<in> {1, 2, 4, 17, 32, 613, 80004}. err_code e = Some c)"
    by (cases "err_code e") (auto simp: transient_def transient_codes_def)
  have c9: "jcalls (snd (setStatusOnObjects J lvl xs st v)) = jcalls v @ map (\<lambda>x. (x, st)) xs"
    by (rule setStatusOnObjects_calls)
  have c10: "length (fst (setStatusOnObjects J lvl xs st v)) = length xs"
    by (rule setStatusOnObjects_results)
  have c11: "fst (setStatusOnObjects J lvl xs st v) =
     map (\<lambda>(k, x). case fetch_post J k x st of
                      Ok json \<Rightarrow> Succeeded x json
                    | NotOk json \<Rightarrow> Failed x json
                    | Threw e \<Rightarrow> Failed x e)
         (enumerate (length (jcalls v)) xs)"
    by (rule setStatusOnObjects_exact)
  have c12: "jslack (snd (setStatusOnObjects J lvl xs st v)) =
     jslack v @ concat (map (\<lambda>(k, x). case fetch_post J k x st of
                                         Ok json \<Rightarrow> []
                                       | NotOk json \<Rightarrow> [json]
                                       | Threw e \<Rightarrow> [e])
                            (enumerate (length (jcalls v)) xs))"
    by (rule setStatusOnObjects_slack)
  have c13: "jgets (snd (setStatusOnObjects J lvl xs st v)) = jgets v"
    by (rule setStatusOnObjects_gets)
  from c1 c2 c3 c4 c5 c6 c7 c8 c9 c10 c11 c12 c13 show ?thesis by (intro conjI)
qed

theorem bounded_retry_witness:
  "post_reply flaky_env (length (calls w0)) ''a'' ACTIVE = Some rate_limited \<and>
   transient rate_limited \<and>
   post_reply flaky_env (length (calls w0) + 1) ''a'' ACTIVE = Some rate_limited \<and>
   post_reply flaky_env (length (calls w0) + 2) ''a'' ACTIVE = None \<and>
   setStatus flaky_env ''a'' ACTIVE w0 =
     (Inr (), \<lparr>calls = [(''a'', ACTIVE), (''a'', ACTIVE), (''a'', ACTIVE)], gets = [],
               sleeps = [500, 1000], alerts = []\<rparr>) \<and>
   fst (setStatusOnObjects flaky_jenv ''campaign'' [''a'', ''b'', ''c''] ACTIVE v0) =
     [Failed ''a'' ''{error:{code:4}}'', Failed ''b'' ''{error:{code:4}}'',
      Succeeded ''c'' ''{success:true}''] \<and>
   jslack (snd (setStatusOnObjects flaky_jenv ''campaign'' [''a'', ''b'', ''c''] ACTIVE v0)) =
     [''{error:{code:4}}'', ''{error:{code:4}}'']"
  using bounded_retry [where E = flaky_env and w = w0 and oid = "''a''" and d = ACTIVE
          and ?e0.0 = rate_limited and ?e1.0 = rate_limited and J = flaky_jenv
          and lvl = "''campaign''" and xs = "[''a'', ''b'', ''c'']" and st = ACTIVE and v = v0]
  by (simp add: flaky_env_def flaky_post_def w0_def called_def slept_def transient_def
        rate_limited_def transient_codes_def flaky_jenv_def flaky_fetch_def v0_def)

theorem bounded_retry_counterexample:
  "fetch_post flaky_jenv 0 ''a'' ACTIVE = NotOk ''{error:{code:4}}'' \<and>
   fetch_post flaky_jenv 2 ''a'' ACTIVE = Ok ''{success:true}'' \<and>
   setStatusOnObjects flaky_jenv ''campaign'' [''a''] ACTIVE v0 =
     ([Failed ''a'' ''{error:{code:4}}''],
      \<lparr>jcalls = [(''a'', ACTIVE)], jgets = [], jslack = [''{error:{code:4}}'']\<rparr>)"
  by (simp add: flaky_jenv_def flaky_fetch_def v0_def postSlack_def)

text \<open>
  Claim C7, as amended. In the SQLite-backed server, for every rule with an empty
  \<^verbatim>\<open>target_ids\<close> and a missing or empty \<^verbatim>\<open>name_filter\<close>, \<^verbatim>\<open>getTargets\<close> returns the
  empty list without any request, and \<^verbatim>\<open>enforce\<close> leaves the world as it was (no
  status mutation) and reports no error on account of the empty resolution. In the
  JSON-file server a rule with an empty \<^verbatim>\<open>ids\<close> always sends a listing request, and an
  empty \<^verbatim>\<open>name_contains\<close> keeps every listed object: resolution returns the identifiers
  of all objects on the pages walked, and enforcement posts the status to each of them.
\<close>

theorem bare_selector:
  "(target_ids r = [] \<and> (name_filter r = None \<or> name_filter r = Some []) \<longrightarrow>
      getTargets E r w = (Inr [], w) \<and>
      enforce E r d now w =
        (if zoneLocal E (timezone r) now = None then Some RangeError else None, w)) \<and>
   (ids j = [] \<and> name_contains j = [] \<and> fst (ruleTargets J j v) = Inr res \<longrightarrow>
      res = concat (map (\<lambda>pg. map item_id (page_data pg))
                     (pages_walked J 10 (Some (listing_url (jaccount_id j) (jlevel j))))) \<and>
      jcalls (snd (edgeApply J j st v)) = jcalls v @ map (\<lambda>x. (x, st)) res) \<and>
   (ids j = [] \<longrightarrow>
      (\<exists>rest. jgets (snd (ruleTargets J j v))
                = jgets v @ listing_url (jaccount_id j) (jlevel j) # rest))"
proof -
  have a: "target_ids r = [] \<and> (name_filter r = None \<or> name_filter r = Some []) \<longrightarrow>
      getTargets E r w = (Inr [], w) \<and>
      enforce E r d now w =
        (if zoneLocal E (timezone r) now = None then Some RangeError else None, w)"
    using getTargets_bare [of r E w] enforce_bare [of r E d now w] by blast
  have b: "ids j = [] \<and> name_contains j = [] \<and> fst (ruleTargets J j v) = Inr res \<longrightarrow>
      res = concat (map (\<lambda>pg. map item_id (page_data pg))
                     (pages_walked J 10 (Some (listing_url (jaccount_id j) (jlevel j))))) \<and>
      jcalls (snd (edgeApply J j st v)) = jcalls v @ map (\<lambda>x. (x, st)) res"
  proof (intro impI, elim conjE)
    assume i: "ids j = []" and n: "name_contains j = []"
       and f: "fst (ruleTargets J j v) = Inr res"
    from i n f have "fst (findTargetsByName J (jaccount_id j) (jlevel j) [] v) = Inr res"
      by (simp add: ruleTargets_def)
    then have "res = kept_ids [] (pages_walked J 10 (Some (listing_url (jaccount_id j) (jlevel j))))"
      by (rule findTargetsByName_result)
    with f show "res = concat (map (\<lambda>pg. map item_id (page_data pg))
                     (pages_walked J 10 (Some (listing_url (jaccount_id j) (jlevel j))))) \<and>
      jcalls (snd (edgeApply J j st v)) = jcalls v @ map (\<lambda>x. (x, st)) res"
      by (simp add: kept_ids_all edgeApply_calls)
  qed
  have c: "ids j = [] \<longrightarrow>
      (\<exists>rest. jgets (snd (ruleTargets J j v))
                = jgets v @ listing_url (jaccount_id j) (jlevel j) # rest)"
    using findTargetsByName_gets [of J "jaccount_id j" "jlevel j" "name_contains j" v]
    by (auto simp: ruleTargets_def)
  from a b c show ?thesis by blast
qed

theorem bare_selector_witness:
  "target_ids bare_rule = [] \<and> name_filter bare_rule = None \<and>
   getTargets ex_env bare_rule w0 = (Inr [], w0) \<and>
   enforce ex_env bare_rule PAUSED mon_2300 w0 = (None, w0) \<and>
   ids bare_jrule = [] \<and>
   (\<exists>rest. jgets (snd (ruleTargets ex_jenv bare_jrule v0))
             = jgets v0 @ listing_url (jaccount_id bare_jrule) (jlevel bare_jrule) # rest)"
proof -
  have h: "target_ids bare_rule = [] \<and> name_filter bare_rule = None"
    by (simp add: bare_rule_def ex_rule_def)
  have z: "zoneLocal ex_env (timezone bare_rule) mon_2300 \<noteq> None"
    by (simp add: ex_env_def bare_rule_def ex_rule_def ex_zones_def)
  have i: "ids bare_jrule = []"
    by (simp add: bare_jrule_def)
  show ?thesis
    using bare_selector [of bare_rule ex_env w0 PAUSED mon_2300 bare_jrule ex_jenv v0] h z i
    by simp
qed

theorem bare_selector_counterexample:
  "ids bare_jrule = [] \<and> name_contains bare_jrule = [] \<and>
   ruleTargets ex_jenv bare_jrule v0 =
     (Inr [''1'', ''2''],
      \<lparr>jcalls = [], jgets = [''https://graph.facebook.com/v23.0/act_42/campaigns''],
       jslack = []\<rparr>) \<and>
   jcalls (snd (enforceRule ex_jenv bare_jrule mon_2300 v0)) = [(''1'', PAUSED), (''2'', PAUSED)]"
  by (simp add: enforceRule_def edgeApply_def ruleTargets_def bare_jrule_def ex_jrule_def
        findTargetsByName_def listing_url_def node_of_def findTargets_from.simps ex_jenv_def
        ex_fetch_get_def ex_listing_def keeps_def v0_def inActiveWindow_def fixedZone_def
        mon_2300_def accept_fetch_def t_json_def Let_def)

text \<open>
  Claim C8, as amended. In the JSON-file server, for every rule with an empty \<^verbatim>\<open>ids\<close> and
  a non-empty \<^verbatim>\<open>name_contains\<close>, resolution requests the listing of the rule's level
  under its account, follows \<^verbatim>\<open>paging.next\<close> for at most 10 requests in all, and, unless a
  request raises, returns exactly the identifiers of the objects on the pages walked
  whose name, put in lower case, contains the filter put in lower case. In the
  SQLite-backed server, for a rule with an empty \<^verbatim>\<open>target_ids\<close> and a non-empty
  \<^verbatim>\<open>name_filter\<close>, resolution sends one listing request and no more (the first page
  only), and keeps the objects whose name contains the filter as it is written, letter
  case included.
\<close>

theorem name_filter_resolution:
  "(ids j = [] \<and> name_contains j \<noteq> [] \<longrightarrow>
      (\<exists>rest. jgets (snd (ruleTargets J j v))
                = jgets v @ listing_url (jaccount_id j) (jlevel j) # rest \<and> length rest < 10) \<and>
      (fst (ruleTargets J j v) = Inr res \<longrightarrow>
         res = concat (map (\<lambda>pg. map item_id
                             (filter (\<lambda>it. includes_str (toLowerCase (orEmpty (item_name it)))
                                              (toLowerCase (name_contains j)))
                                (page_data pg)))
                        (pages_walked J 10 (Some (listing_url (jaccount_id j) (jlevel j)))))) \<and>
      ((\<forall>u e. fetch_get J u \<noteq> Threw e) \<longrightarrow> (\<exists>res'. fst (ruleTargets J j v) = Inr res'))) \<and>
   length (pages_walked J 10 u) \<le> 10 \<and>
   includes_str s sub = (\<exists>p q. s = p @ sub @ q) \<and>
   (target_ids r = [] \<and> name_filter r = Some f \<and> f \<noteq> [] \<longrightarrow>
      snd (getTargets E r w) = w\<lparr>gets := gets w @ [endpoint_of r]\<rparr> \<and>
      (get_reply E (endpoint_of r) = Inr data \<longrightarrow>
         fst (getTargets E r w)
           = Inr (map item_id (filter (\<lambda>x. includes_str (orEmpty (item_name x)) f) data))) \<and>
      (get_reply E (endpoint_of r) = Inl e \<longrightarrow> fst (getTargets E r w) = Inl e))"
proof -
  have a: "ids j = [] \<and> name_contains j \<noteq> [] \<longrightarrow>
      (\<exists>rest. jgets (snd (ruleTargets J j v))
                = jgets v @ listing_url (jaccount_id j) (jlevel j) # rest \<and> length rest < 10) \<and>
      (fst (ruleTargets J j v) = Inr res \<longrightarrow>
         res = concat (map (\<lambda>pg. map item_id
                             (filter (\<lambda>it. includes_str (toLowerCase (orEmpty (item_name it)))
                                              (toLowerCase (name_contains j)))
                                (page_data pg)))
                        (pages_walked J 10 (Some (listing_url (jaccount_id j) (jlevel j)))))) \<and>
      ((\<forall>u e. fetch_get J u \<noteq> Threw e) \<longrightarrow> (\<exists>res'. fst (ruleTargets J j v) = Inr res'))"
  proof (intro impI, elim conjE)
    assume i: "ids j = []" and n: "name_contains j \<noteq> []"
    from i have rt: "ruleTargets J j v
                       = findTargetsByName J (jaccount_id j) (jlevel j) (name_contains j) v"
      by (simp add: ruleTargets_def)
    from n have k: "keeps (name_contains j)
                      = (\<lambda>it. includes_str (toLowerCase (orEmpty (item_name it)))
                                (toLowerCase (name_contains j)))"
      by (simp add: keeps_def fun_eq_iff)
    have 1: "\<exists>rest. jgets (snd (ruleTargets J j v))
                = jgets v @ listing_url (jaccount_id j) (jlevel j) # rest \<and> length rest < 10"
      unfolding rt by (rule findTargetsByName_gets)
    have 2: "fst (ruleTargets J j v) = Inr res \<longrightarrow>
         res = concat (map (\<lambda>pg. map item_id
                             (filter (\<lambda>it. includes_str (toLowerCase (orEmpty (item_name it)))
                                              (toLowerCase (name_contains j)))
                                (page_data pg)))
                        (pages_walked J 10 (Some (listing_url (jaccount_id j) (jlevel j)))))"
      unfolding rt
      using findTargetsByName_result [of J "jaccount_id j" "jlevel j" "name_contains j" v res]
      by (simp add: kept_ids_def k)
    have 3: "(\<forall>u e. fetch_get J u \<noteq> Threw e) \<longrightarrow> (\<exists>res'. fst (ruleTargets J j v) = Inr res')"
      unfolding rt by (simp add: findTargetsByName_returns)
    from 1 2 3 show "(\<exists>rest. jgets (snd (ruleTargets J j v))
                = jgets v @ listing_url (jaccount_id j) (jlevel j) # rest \<and> length rest < 10) \<and>
      (fst (ruleTargets J j v) = Inr res \<longrightarrow>
         res = concat (map (\<lambda>pg. map item_id
                             (filter (\<lambda>it. includes_str (toLowerCase (orEmpty (item_name it)))
                                              (toLowerCase (name_contains j)))
                                (page_data pg)))
                        (pages_walked J 10 (Some (listing_url (jaccount_id j) (jlevel j)))))) \<and>
      ((\<forall>u e. fetch_get J u \<noteq> Threw e) \<longrightarrow> (\<exists>res'. fst (ruleTargets J j v) = Inr res'))"
      by blast
  qed
  have b: "length (pages_walked J 10 u) \<le> 10"
    by (rule length_pages_walked)
  have c: "includes_str s sub = (\<exists>p q. s = p @ sub @ q)"
    by (rule includes_str_iff)
  have d: "target_ids r = [] \<and> name_filter r = Some f \<and> f \<noteq> [] \<longrightarrow>
      snd (getTargets E r w) = w\<lparr>gets := gets w @ [endpoint_of r]\<rparr> \<and>
      (get_reply E (endpoint_of r) = Inr data \<longrightarrow>
         fst (getTargets E r w)
           = Inr (map item_id (filter (\<lambda>x. includes_str (orEmpty (item_name x)) f) data))) \<and>
      (get_reply E (endpoint_of r) = Inl e \<longrightarrow> fst (getTargets E r w) = Inl e)"
    by (auto simp: getTargets_def fetchByNameFilter_def Let_def split: sum.splits)
  from a b c d show ?thesis by blast
qed

theorem name_filter_resolution_witness:
  "ids summer_jrule = [] \<and> name_contains summer_jrule \<noteq> [] \<and>
   fst (ruleTargets ex_jenv summer_jrule v0) = Inr [''1''] \<and>
   target_ids capital_rule = [] \<and> name_filter capital_rule = Some ''Summer'' \<and>
   get_reply ex_env (endpoint_of capital_rule) = Inr ex_listing \<and>
   fst (getTargets ex_env capital_rule w0) = Inr [''1'']"
proof -
  have h: "ids summer_jrule = [] \<and> name_contains summer_jrule \<noteq> []"
    by (simp add: summer_jrule_def)
  have nt: "\<forall>u e. fetch_get ex_jenv u \<noteq> Threw e"
    by (simp add: ex_jenv_def ex_fetch_get_def)
  have ev: "concat (map (\<lambda>pg. map item_id
                             (filter (\<lambda>it. includes_str (toLowerCase (orEmpty (item_name it)))
                                              (toLowerCase (name_contains summer_jrule)))
                                (page_data pg)))
                        (pages_walked ex_jenv 10
                           (Some (listing_url (jaccount_id summer_jrule) (jlevel summer_jrule)))))
              = [''1'']"
    by code_simp
  have g: "target_ids capital_rule = [] \<and> name_filter capital_rule = Some ''Summer''"
    by (simp add: capital_rule_def)
  have l: "get_reply ex_env (endpoint_of capital_rule) = Inr ex_listing"
    by (simp add: ex_env_def ex_get_def)
  have ev': "map item_id (filter (\<lambda>x. includes_str (orEmpty (item_name x)) ''Summer'') ex_listing)
               = [''1'']"
    by code_simp
  from name_filter_resolution [of summer_jrule ex_jenv v0 _ _ _ _ capital_rule "''Summer''"
         ex_env w0 ex_listing] h nt
  obtain res' where r: "fst (ruleTargets ex_jenv summer_jrule v0) = Inr res'"
    by blast
  with name_filter_resolution [of summer_jrule ex_jenv v0 res' _ _ _ capital_rule "''Summer''"
         ex_env w0 ex_listing] h ev
  have 1: "fst (ruleTargets ex_jenv summer_jrule v0) = Inr [''1'']"
    by simp
  from name_filter_resolution [of summer_jrule ex_jenv v0 res' _ _ _ capital_rule "''Summer''"
         ex_env w0 ex_listing] g l ev'
  have 2: "fst (getTargets ex_env capital_rule w0) = Inr [''1'']"
    by simp
  from h 1 g l 2 show ?thesis by blast
qed

theorem name_filter_resolution_counterexample:
  "target_ids summer_rule = [] \<and> name_filter summer_rule = Some ''summer'' \<and>
   get_reply ex_env (endpoint_of summer_rule) = Inr ex_listing \<and>
   map item_name ex_listing = [Some ''Summer Sale'', Some ''winter''] \<and>
   includes_str (toLowerCase ''Summer Sale'') (toLowerCase ''summer'') \<and>
   fst (getTargets ex_env summer_rule w0) = Inr []"
  by code_simp

text \<open>
  Claim C9, as amended. The periodic trigger that \<^verbatim>\<open>scheduleRule\<close> installs has the
  expression \<^verbatim>\<open>*/n * * * *\<close> and fires at the minutes of every hour that are
  multiples of \<open>n\<close>: minute 0, and then every \<open>n\<close> minutes for the rest of the
  hour, so that two firings within an hour are at least \<open>n\<close> minutes apart. In the
  JSON-file server \<open>n\<close> is the rule's \<^verbatim>\<open>enforce_every\<close> clamped to at least 1 and
  at most 60, and 5 when \<^verbatim>\<open>enforce_every\<close> is 0 or \<^verbatim>\<open>NaN\<close>. In the SQLite-backed
  server, for an enabled rule, \<open>n\<close> is \<^verbatim>\<open>enforce_window_minutes\<close> raised to at least
  5, and 30 when it is 0: a configured interval below 5 is checked every 5 minutes, and
  from 60 on the trigger fires at minute 0 only, once an hour.
\<close>

theorem reconciliation_period:
  "(enabled r \<and> fst (scheduleRule dtz r s) = None \<longrightarrow>
      (\<exists>j. jobs (snd (scheduleRule dtz r s)) (rule_id r) = Some j \<and>
           running (crons (snd (scheduleRule dtz r s))) (job_enforce j)
             = Some (periodic_task dtz r))) \<and>
   task_expr (periodic_task dtz r)
     = EveryMinutes (if enforce_window_minutes r = 0 then 30
                     else max 5 (enforce_window_minutes r)) \<and>
   (fst (scheduleRule_json dtz q t) = None \<longrightarrow>
      (\<exists>a b c. schedulers (snd (scheduleRule_json dtz q t)) (jid q) = Some [a, b, c] \<and>
         running (jcrons (snd (scheduleRule_json dtz q t))) c = Some (periodic_task_json dtz q))) \<and>
   task_expr (periodic_task_json dtz q)
     = EveryMinutes (case enforce_every q of
                       None \<Rightarrow> 5
                     | Some n \<Rightarrow> if n = 0 then 5 else max 1 (min 60 n)) \<and>
   1 \<le> every_json q \<and> every_json q \<le> 60 \<and> 5 \<le> everyXMins r \<and>
   fires (EveryMinutes n) h 0 \<and>
   (fires (EveryMinutes n) h m \<longrightarrow> fires (EveryMinutes n) h (m + n)) \<and>
   (1 \<le> n \<and> fires (EveryMinutes n) h m \<and> fires (EveryMinutes n) h m' \<and> m < m' \<longrightarrow>
      m + n \<le> m') \<and>
   (60 \<le> n \<and> 0 \<le> m \<and> m \<le> 59 \<longrightarrow> fires (EveryMinutes n) h m = (m = 0))"
proof -
  have a: "enabled r \<and> fst (scheduleRule dtz r s) = None \<longrightarrow>
      (\<exists>j. jobs (snd (scheduleRule dtz r s)) (rule_id r) = Some j \<and>
           running (crons (snd (scheduleRule dtz r s))) (job_enforce j)
             = Some (periodic_task dtz r))"
  proof
    assume h: "enabled r \<and> fst (scheduleRule dtz r s) = None"
    then have "times_ok r" using scheduleRule_returned by blast
    with h show "\<exists>j. jobs (snd (scheduleRule dtz r s)) (rule_id r) = Some j \<and>
           running (crons (snd (scheduleRule dtz r s))) (job_enforce j)
             = Some (periodic_task dtz r)"
      by (simp add: scheduleRule_enabled Let_def)
  qed
  have b: "task_expr (periodic_task dtz r)
     = EveryMinutes (if enforce_window_minutes r = 0 then 30
                     else max 5 (enforce_window_minutes r))"
    by (simp add: periodic_task_def everyXMins_def)
  have c: "fst (scheduleRule_json dtz q t) = None \<longrightarrow>
      (\<exists>a b c. schedulers (snd (scheduleRule_json dtz q t)) (jid q) = Some [a, b, c] \<and>
         running (jcrons (snd (scheduleRule_json dtz q t))) c = Some (periodic_task_json dtz q))"
  proof
    assume "fst (scheduleRule_json dtz q t) = None"
    then have "times_ok_json q" by (rule scheduleRule_json_returned)
    then show "\<exists>a b c. schedulers (snd (scheduleRule_json dtz q t)) (jid q) = Some [a, b, c] \<and>
         running (jcrons (snd (scheduleRule_json dtz q t))) c = Some (periodic_task_json dtz q)"
      by (simp add: scheduleRule_json_eq Let_def)
  qed
  have d: "task_expr (periodic_task_json dtz q)
     = EveryMinutes (case enforce_every q of
                       None \<Rightarrow> 5
                     | Some n \<Rightarrow> if n = 0 then 5 else max 1 (min 60 n))"
    by (simp add: periodic_task_json_def every_json_def split: option.splits)
  have e: "1 \<le> every_json q" "every_json q \<le> 60" "5 \<le> everyXMins r"
    by (simp_all add: every_json_def everyXMins_def split: option.splits)
  have f: "fires (EveryMinutes n) h 0"
    by simp
  have g: "fires (EveryMinutes n) h m \<longrightarrow> fires (EveryMinutes n) h (m + n)"
    by simp
  have i: "1 \<le> n \<and> fires (EveryMinutes n) h m \<and> fires (EveryMinutes n) h m' \<and> m < m' \<longrightarrow>
      m + n \<le> m'"
  proof
    assume p: "1 \<le> n \<and> fires (EveryMinutes n) h m \<and> fires (EveryMinutes n) h m' \<and> m < m'"
    then have "n dvd m" "n dvd m'" by (simp_all add: dvd_eq_mod_eq_0)
    then obtain k k' where k: "m = n * k" "m' = n * k'" by (auto simp: dvd_def)
    with p have "n * k < n * k'" by simp
    with p have "k < k'" by (simp add: mult_less_cancel_left)
    then have "k + 1 \<le> k'" by simp
    with p have "n * (k + 1) \<le> n * k'" by (simp add: mult_le_cancel_left)
    with k show "m + n \<le> m'" by (simp add: algebra_simps)
  qed
  have j: "60 \<le> n \<and> 0 \<le> m \<and> m \<le> 59 \<longrightarrow> fires (EveryMinutes n) h m = (m = 0)"
    by (auto simp: mod_pos_pos_trivial)
  from a b c d e f g i j show ?thesis by (intro conjI)
qed

theorem reconciliation_period_witness:
  "enabled slow_rule \<and> fst (scheduleRule ''UTC'' slow_rule no_jobs) = None \<and>
   (\<exists>j. jobs (snd (scheduleRule ''UTC'' slow_rule no_jobs)) (rule_id slow_rule) = Some j \<and>
        running (crons (snd (scheduleRule ''UTC'' slow_rule no_jobs))) (job_enforce j)
          = Some (periodic_task ''UTC'' slow_rule)) \<and>
   task_expr (periodic_task ''UTC'' slow_rule) = EveryMinutes 120 \<and>
   (60::int) \<le> 120 \<and> (0::int) \<le> 30 \<and> (30::int) \<le> 59 \<and>
   fires (EveryMinutes 120) 9 30 = False \<and>
   fst (scheduleRule_json ''UTC'' ex_jrule no_schedulers) = None \<and>
   (\<exists>a b c. schedulers (snd (scheduleRule_json ''UTC'' ex_jrule no_schedulers)) (jid ex_jrule)
               = Some [a, b, c] \<and>
      running (jcrons (snd (scheduleRule_json ''UTC'' ex_jrule no_schedulers))) c
        = Some (periodic_task_json ''UTC'' ex_jrule)) \<and>
   task_expr (periodic_task_json ''UTC'' ex_jrule) = EveryMinutes 5 \<and>
   (1::int) \<le> 5 \<and> fires (EveryMinutes 5) 9 10 \<and> fires (EveryMinutes 5) 9 15 \<and>
   (10::int) < 15 \<and> (10::int) + 5 \<le> 15"
proof -
  have e: "enabled slow_rule" and t: "times_ok slow_rule"
    by (simp_all add: slow_rule_def ex_rule_def times_ok_def)
  have r: "fst (scheduleRule ''UTC'' slow_rule no_jobs) = None"
    by (simp add: scheduleRule_enabled [OF e t])
  have tj: "times_ok_json ex_jrule"
    by (simp add: ex_jrule_def times_ok_json_def)
  have rj: "fst (scheduleRule_json ''UTC'' ex_jrule no_schedulers) = None"
    by (simp add: scheduleRule_json_eq [OF tj])
  have x: "enforce_window_minutes slow_rule = 120" "enforce_every ex_jrule = Some 5"
    by (simp_all add: slow_rule_def ex_jrule_def)
  show ?thesis
    using reconciliation_period [where r = slow_rule and dtz = "''UTC''" and s = no_jobs
            and q = ex_jrule and t = no_schedulers and n = 120 and h = 9 and m = 30
            and m' = 45]
          reconciliation_period [where r = slow_rule and dtz = "''UTC''" and s = no_jobs
            and q = ex_jrule and t = no_schedulers and n = 5 and h = 9 and m = 10
            and m' = 15]
          e r rj x
    by simp
qed

theorem reconciliation_period_counterexample:
  "enforce_window_minutes quick_rule = 1 \<and>
   fst (scheduleRule ''UTC'' quick_rule no_jobs) = None \<and>
   jobs (snd (scheduleRule ''UTC'' quick_rule no_jobs)) 1
     = Some \<lparr>job_stop = 0, job_start = 1, job_enforce = 2\<rparr> \<and>
   map_option task_expr (running (crons (snd (scheduleRule ''UTC'' quick_rule no_jobs))) 2)
     = Some (EveryMinutes 5) \<and>
   fires (EveryMinutes 1) 9 1 \<and>
   fires (EveryMinutes 5) 9 0 \<and> \<not> fires (EveryMinutes 5) 9 1 \<and> fires (EveryMinutes 5) 9 5 \<and>
   enforce_every uneven_jrule = Some 45 \<and>
   task_expr (periodic_task_json ''UTC'' uneven_jrule) = EveryMinutes 45 \<and>
   fires (EveryMinutes 45) 9 45 \<and> fires (EveryMinutes 45) 10 0"
proof -
  have e: "enabled quick_rule" and t: "times_ok quick_rule"
    by (simp_all add: quick_rule_def ex_rule_def times_ok_def)
  show ?thesis
    by (simp add: scheduleRule_enabled [OF e t])
       (simp add: quick_rule_def ex_rule_def no_jobs_def no_cron_def unscheduleRule_def Let_def
          periodic_task_def everyXMins_def uneven_jrule_def ex_jrule_def periodic_task_json_def
          every_json_def)
qed

text \<open>
  Claim C5: the code departs from it. Neither server checks the times of a rule, and
  \<^verbatim>\<open>scheduleRule\<close> creates its three tasks one after the other with no \<^verbatim>\<open>try\<close>. For a
  \<^verbatim>\<open>POST /api/rules\<close> with stop time 22:00 and start time \<^verbatim>\<open>25:00\<close> on a fresh
  SQLite-backed server: the row is stored, enabled, under id 1; \<^verbatim>\<open>cron.schedule\<close>
  creates the stop-edge task and then throws on the start-edge expression
  \<^verbatim>\<open>0 25 * * *\<close>; \<^verbatim>\<open>jobs.set\<close> is not reached. So an enabled rule has no trigger
  set, and the stop-edge task is running without belonging to any trigger set: no
  \<^verbatim>\<open>unscheduleRule\<close> finds it, and it is still running after the rule was deleted. The
  JSON-file server does the same with \<^verbatim>\<open>schedulers\<close>.
\<close>

theorem rejected_time_leaves_orphan:
  "fst (post_rules ''UTC'' late_body empty_server)
     = Some (ScheduleFailed (Rejected (DailyAt 0 25))) \<and>
   map rule_id (db late_server) = [1] \<and>
   map enabled (db late_server) = [True] \<and>
   map stop_time (db late_server) = [(22, 0)] \<and>
   map start_time (db late_server) = [(25, 0)] \<and>
   jobs (sched late_server) 1 = None \<and>
   map_option task_expr (running (crons (sched late_server)) 0) = Some (DailyAt 0 22) \<and>
   db (delete_rules 1 late_server) = [] \<and>
   map_option task_expr (running (crons (sched (delete_rules 1 late_server))) 0)
     = Some (DailyAt 0 22) \<and>
   fst (post_rules_json ''UTC'' ''1700000000000'' late_jbody empty_jserver)
     = Some (Rejected (DailyAt 0 25)) \<and>
   map jid (rules late_jserver) = [''r_1700000000000''] \<and>
   map start (rules late_jserver) = [(25, 0)] \<and>
   schedulers (jsched late_jserver) ''r_1700000000000'' = None \<and>
   map_option task_expr (running (jcrons (jsched late_jserver)) 0) = Some (DailyAt 0 22) \<and>
   rules (delete_rules_json ''r_1700000000000'' late_jserver) = [] \<and>
   map_option task_expr
       (running (jcrons (jsched (delete_rules_json ''r_1700000000000'' late_jserver))) 0)
     = Some (DailyAt 0 22)"
proof -
  have n: "new_row ''UTC'' 1 late_body
             = Some (built_row ''UTC'' 1 ''42'' ''campaign'' (22, 0) (25, 0) late_body)"
    by (simp add: new_row_def late_body_def ex_body_def level_ok_def)
  have p: "post_rules ''UTC'' late_body empty_server
             = (Some (ScheduleFailed (Rejected (DailyAt 0 25))),
                \<lparr>db = [built_row ''UTC'' 1 ''42'' ''campaign'' (22, 0) (25, 0) late_body],
                 seq = 1,
                 sched = \<lparr>crons = \<lparr>running = [0 \<mapsto> stop_task ''UTC''
                                      (built_row ''UTC'' 1 ''42'' ''campaign'' (22, 0) (25, 0) late_body)],
                                    created = 1\<rparr>,
                          jobs = Map.empty\<rparr>\<rparr>)"
    by (simp add: post_rules_def empty_server_def n)
       (simp add: scheduleRule_def unscheduleRule_def no_jobs_def no_cron_def cron_schedule_def
          built_row_def late_body_def ex_body_def stop_task_def tz_of_def)
  have q: "post_rules_json ''UTC'' ''1700000000000'' late_jbody empty_jserver
             = (Some (Rejected (DailyAt 0 25)),
                \<lparr>rules = [new_rule ''UTC'' ''1700000000000'' late_jbody],
                 jsched = \<lparr>jcrons = \<lparr>running = [0 \<mapsto> edge_task ''UTC''
                                       (new_rule ''UTC'' ''1700000000000'' late_jbody) (22, 0) PAUSED],
                                      created = 1\<rparr>,
                           schedulers = Map.empty\<rparr>\<rparr>)"
    by (simp add: post_rules_json_def empty_jserver_def Let_def)
       (simp add: scheduleRule_json_def unschedule_def no_schedulers_def no_cron_def
          cron_schedule_def new_rule_def late_jbody_def ex_jbody_def edge_task_def
          cronForTime_def orElse_def Let_def)
  show ?thesis
    unfolding late_server_def late_jserver_def p q
    by (simp add: built_row_def late_body_def ex_body_def stop_task_def delete_rules_def
          unscheduleRule_def new_rule_def late_jbody_def ex_jbody_def edge_task_def orElse_def
          delete_rules_json_def unschedule_def)
qed

end
